theory Spec2Isabelle
  imports Complex_Main "HOL-Library.AList"
begin

section \<open>Shared data model\<close>

text \<open>
  The ranking and retrieval code of \<^verbatim>\<open>lab4\<close> works on the tables of \<^verbatim>\<open>storage.py\<close>.
  Python floats are read as real numbers (exact arithmetic), Python ints as \<open>int\<close>, and a
  Python \<^verbatim>\<open>str\<close> as the list of its Unicode code points. Every exception the modelled code
  can raise is a value of \<open>py_error\<close>.
\<close>

datatype py_error = KeyError | ZeroDivisionError | ValueError | TypeError

type_synonym ustr = "nat list"

text \<open>A row of \<^verbatim>\<open>documents\<close>: (id, url, title, content); title and content are nullable.\<close>

type_synonym doc_row = "int \<times> ustr \<times> ustr option \<times> ustr option"

record database =
  documents :: "doc_row list"
  links :: "(int \<times> int) list"
  terms :: "(int \<times> ustr) list"
  postings :: "(int \<times> int \<times> int) list"
  terms_seq :: int

definition get_all_documents :: "database \<Rightarrow> doc_row list" where
  "get_all_documents db = documents db"

definition get_links :: "database \<Rightarrow> (int \<times> int) list" where
  "get_links db = links db"

section \<open>storage.py\<close>

text \<open>
  The tables keep their rows in insertion order. \<^verbatim>\<open>terms.id\<close> is an
  \<^verbatim>\<open>AUTOINCREMENT\<close> key: a new row takes one more than the largest id the table has ever
  held (\<open>terms_seq\<close>, kept across \<^verbatim>\<open>DELETE\<close>) or holds now.
\<close>

definition clear_index :: "database \<Rightarrow> database" where
  "clear_index db = db\<lparr>postings := [], terms := []\<rparr>"

definition get_or_create_term_id :: "database \<Rightarrow> ustr \<Rightarrow> int \<times> database" where
  "get_or_create_term_id db term =
     (case find (\<lambda>(i, t). t = term) (terms db) of
        Some (i, _) \<Rightarrow> (i, db)
      | None \<Rightarrow>
          (let i = max (terms_seq db) (fold max (map fst (terms db)) 0) + 1
           in (i, db\<lparr>terms := terms db @ [(i, term)], terms_seq := i\<rparr>)))"

definition insert_postings :: "database \<Rightarrow> int \<Rightarrow> (ustr \<times> int) list \<Rightarrow> database" where
  "insert_postings db doc_id term_freqs =
     fold (\<lambda>(term, tf) d.
             (let (term_id, d') = get_or_create_term_id d term
              in d'\<lparr>postings := postings d' @ [(term_id, doc_id, tf)]\<rparr>))
          term_freqs db"

text \<open>\<^verbatim>\<open>SELECT doc_id, tf FROM postings WHERE term_id = ? ORDER BY doc_id\<close>\<close>

definition get_term_postings :: "database \<Rightarrow> ustr \<Rightarrow> (int \<times> int) list" where
  "get_term_postings db term =
     (case find (\<lambda>(i, t). t = term) (terms db) of
        None \<Rightarrow> []
      | Some (term_id, _) \<Rightarrow>
          sort_key fst (map (\<lambda>(_, doc_id, tf). (doc_id, tf))
                          (filter (\<lambda>(t, _, _). t = term_id) (postings db))))"

section \<open>pagerank\_mapreduce.py\<close>

definition build_graph :: "database \<Rightarrow> int list \<times> (int \<rightharpoonup> int list)" where
  "build_graph db =
     (let docs = get_all_documents db;
          lnks = get_links db;
          nodes = map (\<lambda>(doc_id, _, _, _). doc_id) docs;
          outgoing0 = fold (\<lambda>n m. m(n \<mapsto> [])) nodes Map.empty;
          outgoing = fold (\<lambda>(from_id, to_id) m.
                        case m from_id of None \<Rightarrow> m
                        | Some ns \<Rightarrow> m(from_id \<mapsto> ns @ [to_id])) lnks outgoing0
      in (nodes, outgoing))"

text \<open>The inner loops \<^verbatim>\<open>for nb in ...: contributions[nb] += share\<close> on a \<^verbatim>\<open>defaultdict(float)\<close>.\<close>

fun add_share :: "real \<Rightarrow> int list \<Rightarrow> (int \<Rightarrow> real) \<Rightarrow> (int \<Rightarrow> real)" where
  "add_share share [] contributions = contributions"
| "add_share share (nb # nbs) contributions =
     add_share share nbs (contributions(nb := contributions nb + share))"

fun map_phase_loop ::
  "(int \<rightharpoonup> real) \<Rightarrow> int list \<Rightarrow> (int \<rightharpoonup> int list) \<Rightarrow> int \<Rightarrow> int list \<Rightarrow> (int \<Rightarrow> real)
     \<Rightarrow> py_error + (int \<Rightarrow> real)" where
  "map_phase_loop ranks nodes outgoing N [] contributions = Inr contributions"
| "map_phase_loop ranks nodes outgoing N (node # rest) contributions =
     (case ranks node of
        None \<Rightarrow> Inl KeyError
      | Some rank \<Rightarrow>
          (let neighbors = (case outgoing node of None \<Rightarrow> [] | Some ns \<Rightarrow> ns) in
           if neighbors \<noteq> [] then
             (let share = rank / real (length neighbors) in
              map_phase_loop ranks nodes outgoing N rest (add_share share neighbors contributions))
           else if N = 0 then Inl ZeroDivisionError
           else
             (let share = rank / real_of_int N in
              map_phase_loop ranks nodes outgoing N rest (add_share share nodes contributions))))"

definition map_phase ::
  "(int \<rightharpoonup> real) \<Rightarrow> int list \<Rightarrow> (int \<rightharpoonup> int list) \<Rightarrow> int \<Rightarrow> py_error + (int \<Rightarrow> real)" where
  "map_phase ranks nodes outgoing N = map_phase_loop ranks nodes outgoing N nodes (\<lambda>_. 0)"

fun reduce_phase_loop ::
  "(int \<Rightarrow> real) \<Rightarrow> int \<Rightarrow> real \<Rightarrow> int list \<Rightarrow> (int \<rightharpoonup> real) \<Rightarrow> py_error + (int \<rightharpoonup> real)" where
  "reduce_phase_loop contributions N damping [] new_ranks = Inr new_ranks"
| "reduce_phase_loop contributions N damping (node # rest) new_ranks =
     (if N = 0 then Inl ZeroDivisionError
      else reduce_phase_loop contributions N damping rest
             (new_ranks(node \<mapsto> (1 - damping) / real_of_int N + damping * contributions node)))"

definition reduce_phase ::
  "(int \<Rightarrow> real) \<Rightarrow> int list \<Rightarrow> int \<Rightarrow> real \<Rightarrow> py_error + (int \<rightharpoonup> real)" where
  "reduce_phase contributions nodes N damping =
     reduce_phase_loop contributions N damping nodes Map.empty"

text \<open>The body of \<^verbatim>\<open>for _ in range(iterations)\<close>, run \<open>k\<close> times.\<close>

fun mapreduce_iterations ::
  "nat \<Rightarrow> int list \<Rightarrow> (int \<rightharpoonup> int list) \<Rightarrow> int \<Rightarrow> real \<Rightarrow> (int \<rightharpoonup> real)
     \<Rightarrow> py_error + (int \<rightharpoonup> real)" where
  "mapreduce_iterations 0 nodes outgoing N damping ranks = Inr ranks"
| "mapreduce_iterations (Suc k) nodes outgoing N damping ranks =
     (case map_phase ranks nodes outgoing N of
        Inl e \<Rightarrow> Inl e
      | Inr contributions \<Rightarrow>
          (case reduce_phase contributions nodes N damping of
             Inl e \<Rightarrow> Inl e
           | Inr ranks' \<Rightarrow> mapreduce_iterations k nodes outgoing N damping ranks'))"

definition pagerank_mapreduce :: "database \<Rightarrow> int \<Rightarrow> real \<Rightarrow> py_error + (int \<rightharpoonup> real)" where
  "pagerank_mapreduce db iterations damping =
     (let (nodes, outgoing) = build_graph db in
      if nodes = [] then Inr Map.empty
      else
        (let N = int (length nodes);
             ranks = fold (\<lambda>n m. m(n \<mapsto> 1 / real_of_int N)) nodes Map.empty
         in mapreduce_iterations (nat iterations) nodes outgoing N damping ranks))"

section \<open>pagerank\_pregel.py\<close>

record Vertex =
  vid :: int
  out_links :: "int list"
  rank :: real

definition Vertex_init :: "int \<Rightarrow> int list \<Rightarrow> int \<Rightarrow> py_error + Vertex" where
  "Vertex_init v outs num_vertices =
     (if num_vertices = 0 then Inl ZeroDivisionError
      else Inr \<lparr>vid = v, out_links = outs, rank = 1 / real_of_int num_vertices\<rparr>)"

definition calculate :: "Vertex \<Rightarrow> real list \<Rightarrow> int \<Rightarrow> real \<Rightarrow> py_error + Vertex" where
  "calculate v messages num_vertices damping =
     (let incoming_sum = sum_list messages in
      if num_vertices = 0 then Inl ZeroDivisionError
      else Inr (v\<lparr>rank := (1 - damping) / real_of_int num_vertices + damping * incoming_sum\<rparr>))"

definition send_messages :: "Vertex \<Rightarrow> (int \<times> real) list" where
  "send_messages v =
     (if out_links v = [] then []
      else (let share = rank v / real (length (out_links v)) in
            map (\<lambda>dst. (dst, share)) (out_links v)))"

text \<open>
  The dictionary \<^verbatim>\<open>vertices\<close> keeps insertion order; it is an association list written with
  \<open>AList.update\<close> (a repeated key keeps its place and takes the new value).
\<close>

fun make_vertices ::
  "int list \<Rightarrow> (int \<rightharpoonup> int list) \<Rightarrow> int \<Rightarrow> (int \<times> Vertex) list \<Rightarrow> py_error + (int \<times> Vertex) list" where
  "make_vertices [] outgoing num_vertices vertices = Inr vertices"
| "make_vertices (node # rest) outgoing num_vertices vertices =
     (case Vertex_init node (case outgoing node of None \<Rightarrow> [] | Some ns \<Rightarrow> ns) num_vertices of
        Inl e \<Rightarrow> Inl e
      | Inr v \<Rightarrow> make_vertices rest outgoing num_vertices (AList.update node v vertices))"

text \<open>\<^verbatim>\<open>messages[dst].append(value)\<close> on a \<^verbatim>\<open>defaultdict(list)\<close>.\<close>

definition deliver :: "(int \<times> real) list \<Rightarrow> (int \<Rightarrow> real list) \<Rightarrow> (int \<Rightarrow> real list)" where
  "deliver msgs messages = fold (\<lambda>(dst, val) m. m(dst := m dst @ [val])) msgs messages"

definition send_phase :: "Vertex list \<Rightarrow> (int \<Rightarrow> real list)" where
  "send_phase vs = fold (\<lambda>v m. deliver (send_messages v) m) vs (\<lambda>_. [])"

fun compute_phase ::
  "(int \<Rightarrow> real list) \<Rightarrow> int \<Rightarrow> real \<Rightarrow> real \<Rightarrow> (int \<times> Vertex) list
     \<Rightarrow> py_error + (int \<times> Vertex) list" where
  "compute_phase messages num_vertices damping dangling_share [] = Inr []"
| "compute_phase messages num_vertices damping dangling_share ((k, v) # rest) =
     (case calculate v (messages (vid v)) num_vertices damping of
        Inl e \<Rightarrow> Inl e
      | Inr v' \<Rightarrow>
          (case compute_phase messages num_vertices damping dangling_share rest of
             Inl e \<Rightarrow> Inl e
           | Inr rest' \<Rightarrow> Inr ((k, v'\<lparr>rank := rank v' + dangling_share\<rparr>) # rest')))"

definition superstep ::
  "int \<Rightarrow> real \<Rightarrow> (int \<times> Vertex) list \<Rightarrow> py_error + (int \<times> Vertex) list" where
  "superstep num_vertices damping vertices =
     (let messages = send_phase (map snd vertices);
          dangling_rank = sum_list (map rank (filter (\<lambda>v. out_links v = []) (map snd vertices)))
      in if num_vertices = 0 then Inl ZeroDivisionError
         else (let dangling_share = damping * dangling_rank / real_of_int num_vertices
               in compute_phase messages num_vertices damping dangling_share vertices))"

fun pregel_iterations ::
  "nat \<Rightarrow> int \<Rightarrow> real \<Rightarrow> (int \<times> Vertex) list \<Rightarrow> py_error + (int \<times> Vertex) list" where
  "pregel_iterations 0 num_vertices damping vertices = Inr vertices"
| "pregel_iterations (Suc k) num_vertices damping vertices =
     (case superstep num_vertices damping vertices of
        Inl e \<Rightarrow> Inl e
      | Inr vertices' \<Rightarrow> pregel_iterations k num_vertices damping vertices')"

definition pagerank_pregel :: "database \<Rightarrow> int \<Rightarrow> real \<Rightarrow> py_error + (int \<rightharpoonup> real)" where
  "pagerank_pregel db iterations damping =
     (let (nodes, outgoing) = build_graph db in
      if nodes = [] then Inr Map.empty
      else
        (let num_vertices = int (length nodes) in
         case make_vertices nodes outgoing num_vertices [] of
           Inl e \<Rightarrow> Inl e
         | Inr vertices \<Rightarrow>
             (case pregel_iterations (nat iterations) num_vertices damping vertices of
                Inl e \<Rightarrow> Inl e
              | Inr vertices' \<Rightarrow>
                  Inr (fold (\<lambda>v m. m(vid v \<mapsto> rank v)) (map snd vertices') Map.empty))))"

section \<open>search\_engine.py\<close>

subsection \<open>Tokenizer\<close>

text \<open>
  The character class of \<^verbatim>\<open>TOKEN_RE\<close>, \<^verbatim>\<open>[A-Za-z\<close>U+0410\<^verbatim>\<open>-\<close>U+042F U+0430\<^verbatim>\<open>-\<close>U+044F\<^verbatim>\<open>0-9]\<close>, by code point:
  A-Z is 65-90, a-z is 97-122, the Cyrillic capitals are 1040-1071, the Cyrillic small
  letters 1072-1103, the digits 48-57.
\<close>

definition in_token_class :: "nat \<Rightarrow> bool" where
  "in_token_class c \<longleftrightarrow>
     (65 \<le> c \<and> c \<le> 90) \<or> (97 \<le> c \<and> c \<le> 122)
     \<or> (1040 \<le> c \<and> c \<le> 1071) \<or> (1072 \<le> c \<and> c \<le> 1103)
     \<or> (48 \<le> c \<and> c \<le> 57)"

text \<open>
  \<^verbatim>\<open>TOKEN_RE.findall\<close>: the maximal non-empty runs of class characters, left to right;
  \<open>cur\<close> is the match being extended.
\<close>

fun findall_scan :: "ustr \<Rightarrow> ustr \<Rightarrow> ustr list" where
  "findall_scan cur [] = (if cur = [] then [] else [cur])"
| "findall_scan cur (c # cs) =
     (if in_token_class c then findall_scan (cur @ [c]) cs
      else if cur = [] then findall_scan [] cs
      else cur # findall_scan [] cs)"

definition TOKEN_RE_findall :: "ustr \<Rightarrow> ustr list" where
  "TOKEN_RE_findall text = findall_scan [] text"

text \<open>
  \<^verbatim>\<open>str.lower\<close> on the Basic Latin, Latin-1 Supplement and Cyrillic blocks (every character
  a token can hold lies in the first or the last); code points of other blocks are passed
  through unchanged.
\<close>

definition char_lower :: "nat \<Rightarrow> nat" where
  "char_lower c =
     (if 65 \<le> c \<and> c \<le> 90 then c + 32
      else if 192 \<le> c \<and> c \<le> 222 \<and> c \<noteq> 215 then c + 32
      else if 1024 \<le> c \<and> c \<le> 1039 then c + 80
      else if 1040 \<le> c \<and> c \<le> 1071 then c + 32
      else c)"

definition str_lower :: "ustr \<Rightarrow> ustr" where
  "str_lower s = map char_lower s"

text \<open>\<^verbatim>\<open>findall\<close> raises \<^verbatim>\<open>TypeError\<close> when handed \<^verbatim>\<open>None\<close> (a NULL content column).\<close>

definition tokenize :: "ustr option \<Rightarrow> py_error + ustr list" where
  "tokenize text =
     (case text of
        None \<Rightarrow> Inl TypeError
      | Some s \<Rightarrow> Inr (map str_lower (TOKEN_RE_findall s)))"

subsection \<open>Index build\<close>

text \<open>\<^verbatim>\<open>collections.Counter\<close>: a dictionary from element to count, in order of first occurrence.\<close>

definition Counter :: "ustr list \<Rightarrow> (ustr \<times> int) list" where
  "Counter tokens =
     fold (\<lambda>t c. AList.update t ((case map_of c t of None \<Rightarrow> 0 | Some n \<Rightarrow> n) + 1) c) tokens []"

text \<open>
  The loop over the documents. An exception leaves the loop at once; the database keeps
  what the earlier documents committed (\<^verbatim>\<open>insert_postings\<close> commits per document), and the
  exception is returned beside it. \<^verbatim>\<open>init_db\<close> only creates missing tables; the tables of a
  \<open>database\<close> always exist.
\<close>

fun index_documents :: "doc_row list \<Rightarrow> database \<Rightarrow> database \<times> py_error option" where
  "index_documents [] db = (db, None)"
| "index_documents ((doc_id, _, _, content) # docs) db =
     (case tokenize content of
        Inl e \<Rightarrow> (db, Some e)
      | Inr tokens \<Rightarrow>
          (let freqs = Counter tokens;
               term_freqs = map (\<lambda>(term, tf). (term, tf)) freqs
           in index_documents docs (insert_postings db doc_id term_freqs)))"

definition build_inverted_index :: "database \<Rightarrow> database \<times> py_error option" where
  "build_inverted_index db =
     (let db' = clear_index db;
          docs = get_all_documents db'
      in index_documents docs db')"

subsection \<open>Blending and sorting\<close>

text \<open>
  \<^verbatim>\<open>if pagerank: for doc_id in results: results[doc_id] += alpha * pagerank.get(doc_id, 0.0)\<close>.
  A dictionary of results is an association list in insertion order; updating the value of
  every key in turn is a map over its items.
\<close>

definition apply_pagerank ::
  "(int \<times> real) list option \<Rightarrow> real \<Rightarrow> (int \<times> real) list \<Rightarrow> (int \<times> real) list" where
  "apply_pagerank pagerank alpha results =
     (case pagerank of
        None \<Rightarrow> results
      | Some pr \<Rightarrow>
          if pr = [] then results
          else map (\<lambda>(doc_id, score).
                 (doc_id, score + alpha * (case map_of pr doc_id of None \<Rightarrow> 0 | Some r \<Rightarrow> r)))
               results)"

text \<open>
  \<^verbatim>\<open>sorted(items, key=lambda x: x[1], reverse=True)\<close>: CPython reverses the list, sorts it
  stably in ascending key order and reverses it again.
\<close>

definition sorted_by_score_desc :: "(int \<times> real) list \<Rightarrow> (int \<times> real) list" where
  "sorted_by_score_desc items = rev (sort_key snd (rev items))"

subsection \<open>search\_by\_documents\<close>

text \<open>\<^verbatim>\<open>while indices[i] < len(pl) and pl[indices[i]][0] < max_id: indices[i] += 1\<close>\<close>

function advance_cursor :: "(int \<times> int) list \<Rightarrow> int \<Rightarrow> nat \<Rightarrow> nat" where
  "advance_cursor pl max_id i =
     (if i < length pl \<and> fst (pl ! i) < max_id then advance_cursor pl max_id (Suc i) else i)"
  by pat_completeness auto
termination
  by (relation "measure (\<lambda>(pl, max_id, i). length pl - i)") auto

declare advance_cursor.simps [simp del]

text \<open>
  The \<^verbatim>\<open>while True\<close> loop. \<open>indices\<close> holds one cursor per posting list. The loop is left
  only through the \<^verbatim>\<open>return\<close> taken when a cursor has run off its list; \<open>merge_loop\<close> yields the
  dictionary \<open>results\<close> as it is at that point, and \<open>search_by_documents\<close> applies the blending
  and the sort of that \<^verbatim>\<open>return\<close> statement. \<^verbatim>\<open>max\<close> of an empty list raises \<^verbatim>\<open>ValueError\<close>.
\<close>

function merge_loop ::
  "(int \<times> int) list list \<Rightarrow> nat list \<Rightarrow> (int \<times> real) list \<Rightarrow> py_error + (int \<times> real) list" where
  "merge_loop postings_lists indices results =
     (if list_ex (\<lambda>(pl, i). length pl \<le> i) (zip postings_lists indices) then Inr results
      else
        (let current_ids = map (\<lambda>(pl, i). fst (pl ! i)) (zip postings_lists indices) in
         if current_ids = [] then Inl ValueError
         else
           (let max_id = Max (set current_ids);
                min_id = Min (set current_ids) in
            if max_id = min_id then
              (let doc_id = max_id;
                   score = sum_list (map (\<lambda>(pl, i). real_of_int (snd (pl ! i)))
                                      (zip postings_lists indices))
               in merge_loop postings_lists (map Suc indices) (AList.update doc_id score results))
            else
              merge_loop postings_lists
                (map (\<lambda>(pl, i). advance_cursor pl max_id i) (zip postings_lists indices))
                results)))"
  by pat_completeness auto
termination
proof (relation "measure (\<lambda>(pls, idx, res). sum_list (map (\<lambda>(pl, i). length pl - i) (zip pls idx)))",
    goal_cases)
  case 1
  show ?case by simp
next
  case (2 pls idx res cur mx mn doc score)
  let ?z = "zip pls idx"
  from 2 have ne: "?z \<noteq> []" by auto
  from 2 have inside: "\<And>p. p \<in> set ?z \<Longrightarrow> snd p < length (fst p)"
    by (auto simp: list_ex_iff)
  have "sum_list (map (\<lambda>p. length (fst p) - Suc (snd p)) ?z)
          < sum_list (map (\<lambda>p. length (fst p) - snd p) ?z)"
    using ne by (rule sum_list_strict_mono) (use inside in fastforce)
  then show ?case
    by (simp add: zip_map2 case_prod_unfold comp_def)
next
  case (3 pls idx res cur mx mn)
  let ?z = "zip pls idx"
  let ?adv = "\<lambda>p. advance_cursor (fst p) mx (snd p)"
  have mono: "i \<le> advance_cursor pl m i" for pl m i
  proof (induction pl m i rule: advance_cursor.induct)
    case (1 pl m i)
    show ?case
    proof (cases "i < length pl \<and> fst (pl ! i) < m")
      case True
      with 1 have "Suc i \<le> advance_cursor pl m (Suc i)" by simp
      with True show ?thesis by (subst advance_cursor.simps) simp
    next
      case False
      then show ?thesis by (subst advance_cursor.simps) auto
    qed
  qed
  have zipmap: "zip xs (map f (zip xs ys)) = map (\<lambda>p. (fst p, f p)) (zip xs ys)"
    for xs :: "(int \<times> int) list list" and ys :: "nat list" and f
  proof (induction xs arbitrary: ys)
    case Nil
    show ?case by simp
  next
    case (Cons x xs)
    then show ?case by (cases ys) simp_all
  qed
  have strict: "sum_list (map f zs) < sum_list (map g zs)"
    if le: "\<And>z. z \<in> set zs \<Longrightarrow> f z \<le> g z" and lt: "p \<in> set zs" "f p < g p"
    for f g :: "(int \<times> int) list \<times> nat \<Rightarrow> nat" and zs p
  proof -
    from lt(1) obtain us vs where zs: "zs = us @ p # vs" by (auto dest: split_list)
    have "sum_list (map f us) \<le> sum_list (map g us)"
      by (rule sum_list_mono) (simp add: le zs)
    moreover have "sum_list (map f vs) \<le> sum_list (map g vs)"
      by (rule sum_list_mono) (simp add: le zs)
    ultimately show ?thesis using lt(2) by (simp add: zs)
  qed
  from 3 have inside: "\<And>p. p \<in> set ?z \<Longrightarrow> snd p < length (fst p)"
    by (auto simp: list_ex_iff)
  from 3 have curne: "cur \<noteq> []" and cur: "cur = map (\<lambda>p. fst (fst p ! snd p)) ?z"
    by (simp_all add: case_prod_unfold)
  from 3 have mn: "mn = Min (set cur)" and mx: "mx = Max (set cur)" and neq: "mx \<noteq> mn"
    by simp_all
  have "mn \<in> set cur" unfolding mn using curne by (intro Min_in) simp_all
  then have "mn \<in> (\<lambda>p. fst (fst p ! snd p)) ` set ?z" by (subst (asm) cur) simp
  then obtain p where p: "p \<in> set ?z" "fst (fst p ! snd p) = mn"
    by (elim imageE) simp
  have "mn \<le> mx" unfolding mn mx using curne by (meson List.finite_set Max_ge Min_le dual_order.trans last_in_set)
  with neq have "mn < mx" by simp
  with p inside[OF p(1)] have "?adv p = advance_cursor (fst p) mx (Suc (snd p))"
    by (subst advance_cursor.simps) simp
  with mono[of "Suc (snd p)" "fst p" mx] have "snd p < ?adv p" by simp
  with inside[OF p(1)] have lt: "length (fst p) - ?adv p < length (fst p) - snd p" by simp
  have "sum_list (map (\<lambda>p. length (fst p) - ?adv p) ?z)
          < sum_list (map (\<lambda>p. length (fst p) - snd p) ?z)"
    using p(1) lt
    by (intro strict[of ?z "\<lambda>p. length (fst p) - ?adv p" "\<lambda>p. length (fst p) - snd p" p])
       (simp_all add: mono diff_le_mono2)
  then show ?case
    by (simp add: zipmap case_prod_unfold comp_def)
qed

declare merge_loop.simps [simp del]

definition search_by_documents ::
  "database \<Rightarrow> ustr list \<Rightarrow> (int \<times> real) list option \<Rightarrow> real \<Rightarrow> py_error + (int \<times> real) list" where
  "search_by_documents db query_terms pagerank alpha =
     (let lowered = map str_lower query_terms;
          postings_lists = map (get_term_postings db) lowered in
      if postings_lists = [] \<or> list_ex (\<lambda>pl. pl = []) postings_lists then Inr []
      else
        (let indices = map (\<lambda>_. 0) postings_lists in
         case merge_loop postings_lists indices [] of
           Inl e \<Rightarrow> Inl e
         | Inr results \<Rightarrow> Inr (sorted_by_score_desc (apply_pagerank pagerank alpha results))))"

subsection \<open>search\_by\_terms\<close>

text \<open>\<^verbatim>\<open>for doc_id, tf in postings: scores[doc_id] = scores.get(doc_id, 0.0) + float(tf)\<close>\<close>

definition accumulate :: "(int \<times> int) list \<Rightarrow> (int \<times> real) list \<Rightarrow> (int \<times> real) list" where
  "accumulate postings_list scores =
     fold (\<lambda>(doc_id, tf) sc.
             AList.update doc_id
               ((case map_of sc doc_id of None \<Rightarrow> 0 | Some s \<Rightarrow> s) + real_of_int tf) sc)
          postings_list scores"

definition accumulate_terms :: "database \<Rightarrow> ustr list \<Rightarrow> (int \<times> real) list \<Rightarrow> (int \<times> real) list" where
  "accumulate_terms db lowered scores =
     fold (\<lambda>term sc. accumulate (get_term_postings db term) sc) lowered scores"

definition search_by_terms ::
  "database \<Rightarrow> ustr list \<Rightarrow> (int \<times> real) list option \<Rightarrow> real \<Rightarrow> (int \<times> real) list" where
  "search_by_terms db query_terms pagerank alpha =
     (let lowered = map str_lower query_terms;
          scores = accumulate_terms db lowered []
      in sorted_by_score_desc (apply_pagerank pagerank alpha scores))"

section \<open>Auxiliary notions for the proofs\<close>

text \<open>The out-edges the ranking loops read for a node: \<^verbatim>\<open>outgoing.get(node, [])\<close>.\<close>

definition nbrs :: "(int \<rightharpoonup> int list) \<Rightarrow> int \<Rightarrow> int list" where
  "nbrs outgoing node = (case outgoing node of None \<Rightarrow> [] | Some ns \<Rightarrow> ns)"

text \<open>What node \<open>m\<close> adds to \<^verbatim>\<open>contributions[n]\<close> during one scatter.\<close>

definition contrib ::
  "int list \<Rightarrow> (int \<rightharpoonup> int list) \<Rightarrow> int \<Rightarrow> (int \<Rightarrow> real) \<Rightarrow> int \<Rightarrow> int \<Rightarrow> real" where
  "contrib nodes outgoing N r m n =
     (if nbrs outgoing m \<noteq> []
      then r m / real (length (nbrs outgoing m)) * real (count_list (nbrs outgoing m) n)
      else r m / real_of_int N * real (count_list nodes n))"

text \<open>One iteration, as a function on rank vectors.\<close>

definition rank_step ::
  "int list \<Rightarrow> (int \<rightharpoonup> int list) \<Rightarrow> int \<Rightarrow> real \<Rightarrow> (int \<Rightarrow> real) \<Rightarrow> (int \<Rightarrow> real)" where
  "rank_step nodes outgoing N damping r n =
     (1 - damping) / real_of_int N + damping * (\<Sum>m\<leftarrow>nodes. contrib nodes outgoing N r m n)"

definition as_ranks :: "int list \<Rightarrow> (int \<Rightarrow> real) \<Rightarrow> (int \<rightharpoonup> real)" where
  "as_ranks nodes r = (\<lambda>n. if n \<in> set nodes then Some (r n) else None)"

definition vertices_of ::
  "int list \<Rightarrow> (int \<rightharpoonup> int list) \<Rightarrow> (int \<Rightarrow> real) \<Rightarrow> (int \<times> Vertex) list" where
  "vertices_of nodes outgoing r =
     map (\<lambda>n. (n, \<lparr>vid = n, out_links = nbrs outgoing n, rank = r n\<rparr>)) nodes"

text \<open>The sum of the messages vertex \<open>v\<close> sends to \<open>n\<close>.\<close>

definition sent :: "Vertex \<Rightarrow> int \<Rightarrow> real" where
  "sent v n =
     (if out_links v = [] then 0
      else rank v / real (length (out_links v)) * real (count_list (out_links v) n))"

text \<open>A three-document graph: 1 links to 2 and 3, 2 links to 1, 3 is dangling.\<close>

definition example_graph_db :: database where
  "example_graph_db =
     \<lparr>documents = [(1, [97], None, None), (2, [98], None, None), (3, [99], None, None)],
      links = [(1, 2), (1, 3), (2, 1)], terms = [], postings = [], terms_seq = 0\<rparr>"

text \<open>The dictionary \<^verbatim>\<open>scores\<close> of \<^verbatim>\<open>search_by_terms\<close> before blending and sorting.\<close>

definition retrieved_by_terms :: "database \<Rightarrow> ustr list \<Rightarrow> (int \<times> real) list" where
  "retrieved_by_terms db query_terms = accumulate_terms db (map str_lower query_terms) []"

text \<open>The dictionary \<^verbatim>\<open>results\<close> of \<^verbatim>\<open>search_by_documents\<close> before blending and sorting
  (empty when the guard before the loop returns).\<close>

definition retrieved_by_documents :: "database \<Rightarrow> ustr list \<Rightarrow> py_error + (int \<times> real) list" where
  "retrieved_by_documents db query_terms =
     (let postings_lists = map (get_term_postings db) (map str_lower query_terms) in
      if postings_lists = [] \<or> list_ex (\<lambda>pl. pl = []) postings_lists then Inr []
      else merge_loop postings_lists (map (\<lambda>_. 0) postings_lists) [])"

text \<open>The document ids that every posting list still holds at or after its cursor.\<close>

definition common :: "(int \<times> int) list list \<Rightarrow> nat list \<Rightarrow> int set" where
  "common pls idx = {d. \<forall>p\<in>set (zip pls idx). d \<in> fst ` set (drop (snd p) (fst p))}"

text \<open>The frequency a posting list records for a document (0 when it has none).\<close>

definition tf_in :: "(int \<times> int) list \<Rightarrow> int \<Rightarrow> int" where
  "tf_in pl d = (case map_of pl d of None \<Rightarrow> 0 | Some tf \<Rightarrow> tf)"

definition score_sum :: "(int \<times> int) list list \<Rightarrow> int \<Rightarrow> real" where
  "score_sum pls d = (\<Sum>pl\<leftarrow>pls. real_of_int (tf_in pl d))"

text \<open>Document ids in order of first occurrence, after those already \<open>seen\<close>.\<close>

definition first_seen :: "int list \<Rightarrow> int list \<Rightarrow> int list" where
  "first_seen ids seen = fold (\<lambda>d ds. if d \<in> set ds then ds else ds @ [d]) ids seen"

text \<open>The id \<^verbatim>\<open>SELECT id FROM terms WHERE term = ?\<close> finds.\<close>

definition term_id_of :: "database \<Rightarrow> ustr \<Rightarrow> int option" where
  "term_id_of db term = map_option fst (find (\<lambda>(i, t). t = term) (terms db))"

definition has_posting :: "database \<Rightarrow> ustr \<Rightarrow> int \<Rightarrow> int \<Rightarrow> bool" where
  "has_posting db term doc_id tf \<longleftrightarrow>
     (\<exists>i. term_id_of db term = Some i \<and> (i, doc_id, tf) \<in> set (postings db))"

text \<open>A corpus record whose content column is not NULL.\<close>

definition well_formed :: "doc_row \<Rightarrow> bool" where
  "well_formed row \<longleftrightarrow> snd (snd (snd row)) \<noteq> None"

text \<open>An index in which term "a" has postings in documents 1, 2, 3 and term "b" in 2, 3, 4.\<close>

definition example_index_db :: database where
  "example_index_db =
     \<lparr>documents = [], links = [],
      terms = [(1, [97]), (2, [98])],
      postings = [(1, 1, 2), (2, 2, 1), (1, 3, 1), (1, 2, 5), (2, 3, 1), (2, 4, 7)],
      terms_seq = 2\<rparr>"

text \<open>A corpus of two documents, "a b A" and "b", with a stale index to be cleared.\<close>

definition example_corpus_db :: database where
  "example_corpus_db =
     \<lparr>documents = [(1, [], None, Some [97, 32, 98, 32, 65]), (2, [], None, Some [98])],
      links = [], terms = [(9, [122])], postings = [(9, 7, 1)], terms_seq = 9\<rparr>"

text \<open>A corpus whose second record has no content.\<close>

definition example_broken_db :: database where
  "example_broken_db =
     \<lparr>documents = [(1, [], None, Some [97]), (2, [], None, None), (3, [], None, Some [98])],
      links = [], terms = [], postings = [], terms_seq = 0\<rparr>"

section \<open>Ranking: both strategies compute the same iteration\<close>

subsection \<open>The batch strategy in closed form\<close>

lemma add_share_apply:
  "add_share share nbs c n = c n + share * real (count_list nbs n)"
  by (induction nbs arbitrary: c) (simp_all add: algebra_simps)

lemma map_phase_loop_closed:
  assumes "N \<noteq> 0" "set todo \<subseteq> set nodes"
  shows "map_phase_loop (as_ranks nodes r) nodes outgoing N todo c =
         Inr (\<lambda>n. c n + (\<Sum>m\<leftarrow>todo. contrib nodes outgoing N r m n))"
  using assms
proof (induction todo arbitrary: c)
  case Nil
  then show ?case by simp
next
  case (Cons m todo)
  then have m: "as_ranks nodes r m = Some (r m)" by (simp add: as_ranks_def)
  show ?case
    using Cons.prems Cons.IH
    by (simp add: m Let_def nbrs_def[symmetric] contrib_def add_share_apply fun_eq_iff algebra_simps)
qed

lemma map_phase_closed:
  "N \<noteq> 0 \<Longrightarrow> map_phase (as_ranks nodes r) nodes outgoing N =
     Inr (\<lambda>n. \<Sum>m\<leftarrow>nodes. contrib nodes outgoing N r m n)"
  by (simp add: map_phase_def map_phase_loop_closed)

lemma reduce_phase_loop_closed:
  "N \<noteq> 0 \<Longrightarrow> reduce_phase_loop c N d todo nr =
     Inr (\<lambda>n. if n \<in> set todo then Some ((1 - d) / real_of_int N + d * c n) else nr n)"
  by (induction todo arbitrary: nr) (auto simp: fun_eq_iff)

lemma reduce_phase_closed:
  "N \<noteq> 0 \<Longrightarrow> reduce_phase c nodes N d = Inr (as_ranks nodes (\<lambda>n. (1 - d) / real_of_int N + d * c n))"
  by (simp add: reduce_phase_def reduce_phase_loop_closed as_ranks_def)

lemma mapreduce_iterations_closed:
  "N \<noteq> 0 \<Longrightarrow> mapreduce_iterations k nodes outgoing N d (as_ranks nodes r) =
     Inr (as_ranks nodes ((rank_step nodes outgoing N d ^^ k) r))"
proof (induction k arbitrary: r)
  case 0
  then show ?case by simp
next
  case (Suc k)
  have "(\<lambda>n. (1 - d) / real_of_int N + d * (\<Sum>m\<leftarrow>nodes. contrib nodes outgoing N r m n))
        = rank_step nodes outgoing N d r"
    by (simp add: rank_step_def fun_eq_iff)
  then show ?case
    using Suc by (simp add: map_phase_closed reduce_phase_closed funpow_swap1)
qed

lemma initial_ranks:
  "fold (\<lambda>n m. m(n \<mapsto> v)) nodes m0 = (\<lambda>n. if n \<in> set nodes then Some v else m0 n)"
  by (induction nodes arbitrary: m0) (auto simp: fun_eq_iff)

lemma pagerank_mapreduce_closed:
  assumes "build_graph db = (nodes, outgoing)" "nodes \<noteq> []"
  shows "pagerank_mapreduce db k d =
     Inr (as_ranks nodes ((rank_step nodes outgoing (int (length nodes)) d ^^ nat k)
            (\<lambda>_. 1 / real (length nodes))))"
proof -
  have "fold (\<lambda>n m. m(n \<mapsto> 1 / real (length nodes))) nodes Map.empty
          = as_ranks nodes (\<lambda>_. 1 / real (length nodes))"
    by (simp add: initial_ranks as_ranks_def)
  then show ?thesis
    using assms by (simp add: pagerank_mapreduce_def mapreduce_iterations_closed)
qed

subsection \<open>The vertex-centric strategy in closed form\<close>

lemma update_fresh: "k \<notin> fst ` set al \<Longrightarrow> AList.update k v al = al @ [(k, v)]"
  by (induction al) auto

lemma make_vertices_closed:
  assumes "N \<noteq> 0" "distinct nodes" "fst ` set acc \<inter> set nodes = {}"
  shows "make_vertices nodes outgoing N acc =
           Inr (acc @ vertices_of nodes outgoing (\<lambda>_. 1 / real_of_int N))"
  using assms
proof (induction nodes arbitrary: acc)
  case Nil
  then show ?case by (simp add: vertices_of_def)
next
  case (Cons n nodes)
  have fresh: "n \<notin> fst ` set acc" using Cons.prems by auto
  have disj: "fst ` set (acc @ [(n, v)]) \<inter> set nodes = {}" for v
    using Cons.prems by auto
  show ?case
    using Cons.prems Cons.IH[OF _ _ disj]
    by (simp add: Vertex_init_def update_fresh[OF fresh] nbrs_def[symmetric] vertices_of_def)
qed

lemma deliver_sum:
  "sum_list (deliver (map (\<lambda>dst. (dst, s)) outs) m n) = sum_list (m n) + s * real (count_list outs n)"
  unfolding deliver_def
  by (induction outs arbitrary: m) (simp_all add: algebra_simps)

lemma sent_mk:
  "sent \<lparr>vid = a, out_links = os, rank = x\<rparr> n =
     (if os = [] then 0 else x / real (length os) * real (count_list os n))"
  by (simp add: sent_def)

lemma deliver_send_messages:
  "sum_list (deliver (send_messages v) m n) = sum_list (m n) + sent v n"
proof (cases "out_links v = []")
  case True
  then show ?thesis by (simp add: send_messages_def sent_def deliver_def)
next
  case False
  then show ?thesis by (simp add: send_messages_def sent_def Let_def deliver_sum)
qed

lemma send_fold_sum:
  "sum_list (fold (\<lambda>v m. deliver (send_messages v) m) vs m0 n)
     = sum_list (m0 n) + (\<Sum>v\<leftarrow>vs. sent v n)"
  by (induction vs arbitrary: m0) (simp_all add: deliver_send_messages algebra_simps)

lemma send_phase_sum: "sum_list (send_phase vs n) = (\<Sum>v\<leftarrow>vs. sent v n)"
  by (simp add: send_phase_def send_fold_sum)

lemma compute_phase_closed:
  "N \<noteq> 0 \<Longrightarrow> compute_phase msgs N d ds vs =
     Inr (map (\<lambda>(k, v). (k, v\<lparr>rank := (1 - d) / real_of_int N + d * sum_list (msgs (vid v)) + ds\<rparr>)) vs)"
  by (induction vs) (auto simp: calculate_def)

lemma dangling_sum:
  "sum_list (map rank (filter (\<lambda>v. out_links v = []) vs))
     = (\<Sum>v\<leftarrow>vs. if out_links v = [] then rank v else 0)"
  by (induction vs) simp_all

lemma contrib_split:
  assumes "count_list nodes n = 1"
  shows "(\<Sum>m\<leftarrow>ms. contrib nodes outgoing N r m n)
     = (\<Sum>m\<leftarrow>ms. if nbrs outgoing m = [] then 0
           else r m / real (length (nbrs outgoing m)) * real (count_list (nbrs outgoing m) n))
       + (\<Sum>m\<leftarrow>ms. if nbrs outgoing m = [] then r m else 0) / real_of_int N"
  using assms by (induction ms) (simp_all add: contrib_def add_divide_distrib)

lemma count_list_distinct: "distinct xs \<Longrightarrow> x \<in> set xs \<Longrightarrow> count_list xs x = 1"
  by (induction xs) (auto simp: count_list_0_iff)

lemma vertices_of_update:
  "(\<And>n. n \<in> set nodes \<Longrightarrow> f n = g n) \<Longrightarrow>
   map (\<lambda>(k, v). (k, v\<lparr>rank := f (vid v)\<rparr>)) (vertices_of nodes outgoing r)
     = vertices_of nodes outgoing g"
  by (simp add: vertices_of_def)

lemma superstep_closed:
  assumes "N \<noteq> 0" "distinct nodes"
  shows "superstep N d (vertices_of nodes outgoing r)
           = Inr (vertices_of nodes outgoing (rank_step nodes outgoing N d r))"
proof -
  let ?vs = "map snd (vertices_of nodes outgoing r)"
  have sent_sum: "(\<Sum>v\<leftarrow>?vs. sent v n) =
      (\<Sum>m\<leftarrow>nodes. if nbrs outgoing m = [] then 0
           else r m / real (length (nbrs outgoing m)) * real (count_list (nbrs outgoing m) n))" for n
    by (simp add: vertices_of_def comp_def sent_mk)
  have dang: "sum_list (map rank (filter (\<lambda>v. out_links v = []) ?vs))
      = (\<Sum>m\<leftarrow>nodes. if nbrs outgoing m = [] then r m else 0)"
    by (simp add: dangling_sum vertices_of_def comp_def cong: if_cong)
  have step: "(1 - d) / real_of_int N + d * sum_list (send_phase ?vs n)
        + d * sum_list (map rank (filter (\<lambda>v. out_links v = []) ?vs)) / real_of_int N
      = rank_step nodes outgoing N d r n" if "n \<in> set nodes" for n
  proof -
    have "count_list nodes n = 1" using that assms(2) by (rule count_list_distinct[rotated])
    have sp: "sum_list (send_phase ?vs n) =
      (\<Sum>m\<leftarrow>nodes. if nbrs outgoing m = [] then 0
           else r m / real (length (nbrs outgoing m)) * real (count_list (nbrs outgoing m) n))"
      by (simp only: send_phase_sum sent_sum)
    show ?thesis
      unfolding sp dang rank_step_def
        contrib_split[OF \<open>count_list nodes n = 1\<close>, where ms=nodes and outgoing=outgoing and N=N and r=r]
      by (simp add: algebra_simps)
  qed
  have "superstep N d (vertices_of nodes outgoing r) =
      Inr (map (\<lambda>(k, v). (k, v\<lparr>rank := (1 - d) / real_of_int N + d * sum_list (send_phase ?vs (vid v))
        + d * sum_list (map rank (filter (\<lambda>v. out_links v = []) ?vs)) / real_of_int N\<rparr>))
          (vertices_of nodes outgoing r))"
    using assms(1) by (simp add: superstep_def Let_def compute_phase_closed)
  also have "\<dots> = Inr (vertices_of nodes outgoing (rank_step nodes outgoing N d r))"
    using vertices_of_update[of nodes "\<lambda>n. (1 - d) / real_of_int N + d * sum_list (send_phase ?vs n)
        + d * sum_list (map rank (filter (\<lambda>v. out_links v = []) ?vs)) / real_of_int N"
        "rank_step nodes outgoing N d r" outgoing r] step
    by simp
  finally show ?thesis .
qed

lemma pregel_iterations_closed:
  assumes "N \<noteq> 0" "distinct nodes"
  shows "pregel_iterations k N d (vertices_of nodes outgoing r)
           = Inr (vertices_of nodes outgoing ((rank_step nodes outgoing N d ^^ k) r))"
  using assms
  by (induction k arbitrary: r) (simp_all add: superstep_closed funpow_swap1)

lemma collect_ranks:
  "fold (\<lambda>v m. m(vid v \<mapsto> rank v)) (map snd (vertices_of nodes outgoing r)) m0
     = (\<lambda>n. if n \<in> set nodes then Some (r n) else m0 n)"
  by (induction nodes arbitrary: m0) (auto simp: vertices_of_def fun_eq_iff)

lemma pagerank_pregel_closed:
  assumes "build_graph db = (nodes, outgoing)" "nodes \<noteq> []" "distinct nodes"
  shows "pagerank_pregel db k d =
     Inr (as_ranks nodes ((rank_step nodes outgoing (int (length nodes)) d ^^ nat k)
            (\<lambda>_. 1 / real (length nodes))))"
proof -
  have mk: "make_vertices nodes outgoing (int (length nodes)) []
      = Inr (vertices_of nodes outgoing (\<lambda>_. 1 / real (length nodes)))"
    using make_vertices_closed[of "int (length nodes)" nodes "[]" outgoing] assms by simp
  show ?thesis
    using assms
    by (simp add: pagerank_pregel_def mk pregel_iterations_closed collect_ranks as_ranks_def)
qed

subsection \<open>The graph read from the database\<close>

lemma build_graph_nodes: "fst (build_graph db) = map fst (documents db)"
  by (simp add: build_graph_def Let_def get_all_documents_def case_prod_unfold)

lemma links_fold:
  "fold (\<lambda>(from_id, to_id) m. case m from_id of None \<Rightarrow> m | Some ns \<Rightarrow> m(from_id \<mapsto> ns @ [to_id])) lnks m x
     = (case m x of None \<Rightarrow> None
        | Some ns \<Rightarrow> Some (ns @ map snd (filter (\<lambda>l. fst l = x) lnks)))"
proof (induction lnks arbitrary: m)
  case Nil
  then show ?case by (simp split: option.splits)
next
  case (Cons l lnks)
  show ?case
    by (cases l) (auto simp: Cons.IH split: option.splits)
qed

lemma build_graph_nbrs:
  "set (nbrs (snd (build_graph db)) m) \<subseteq> snd ` set (links db)"
  by (auto simp: build_graph_def Let_def get_links_def nbrs_def links_fold initial_ranks
      split: option.splits if_splits)

text \<open>
  Claim C2. On the same documents and links, with document ids distinct (they are the
  primary key of \<^verbatim>\<open>documents\<close>), \<^verbatim>\<open>pagerank_pregel\<close> and \<^verbatim>\<open>pagerank_mapreduce\<close> return the
  same rank for every document, for every iteration count and damping factor; in exact
  arithmetic the two vectors are equal.
\<close>

theorem pagerank_strategies_agree:
  assumes "distinct (map fst (documents db))"
  shows "pagerank_pregel db iterations damping = pagerank_mapreduce db iterations damping"
proof (cases "documents db = []")
  case True
  then show ?thesis
    by (simp add: pagerank_pregel_def pagerank_mapreduce_def build_graph_def Let_def
        get_all_documents_def)
next
  case False
  obtain nodes outgoing where g: "build_graph db = (nodes, outgoing)"
    by (cases "build_graph db")
  with build_graph_nodes[of db] have n: "nodes = map fst (documents db)" by simp
  with False assms have "nodes \<noteq> []" "distinct nodes" by simp_all
  then show ?thesis
    using g by (simp add: pagerank_pregel_closed pagerank_mapreduce_closed)
qed

theorem pagerank_strategies_agree_witness:
  "distinct (map fst (documents example_graph_db)) \<and>
   pagerank_pregel example_graph_db 2 (1/2) = pagerank_mapreduce example_graph_db 2 (1/2)"
  using pagerank_strategies_agree[of example_graph_db 2 "1/2"]
  by (simp add: example_graph_db_def)

subsection \<open>Conservation of rank mass\<close>

lemma count_list_sum:
  "finite S \<Longrightarrow> set xs \<subseteq> S \<Longrightarrow> (\<Sum>n\<in>S. real (count_list xs n)) = real (length xs)"
proof (induction xs)
  case Nil
  then show ?case by simp
next
  case (Cons x xs)
  then have "(\<Sum>n\<in>S. real (count_list (x # xs) n))
      = (\<Sum>n\<in>S. real (count_list xs n) + (if x = n then 1 else 0))"
    by (intro sum.cong) auto
  also have "\<dots> = real (length xs) + 1"
    using Cons by (simp add: sum.distrib)
  finally show ?case by simp
qed

lemma contrib_total:
  assumes "N = int (length nodes)" "nodes \<noteq> []" "set (nbrs outgoing m) \<subseteq> set nodes"
  shows "(\<Sum>n\<in>set nodes. contrib nodes outgoing N r m n) = r m"
proof (cases "nbrs outgoing m = []")
  case True
  have "(\<Sum>n\<in>set nodes. contrib nodes outgoing N r m n)
      = r m / real (length nodes) * (\<Sum>n\<in>set nodes. real (count_list nodes n))"
    using True assms(1) by (simp add: contrib_def sum_distrib_left)
  then show ?thesis
    using assms(2) by (simp add: count_list_sum)
next
  case False
  have "(\<Sum>n\<in>set nodes. contrib nodes outgoing N r m n)
      = r m / real (length (nbrs outgoing m)) * (\<Sum>n\<in>set nodes. real (count_list (nbrs outgoing m) n))"
    using False by (simp add: contrib_def sum_distrib_left)
  then show ?thesis
    using False assms(3) by (simp add: count_list_sum)
qed

lemma rank_step_total:
  assumes "N = int (length nodes)" "nodes \<noteq> []" "distinct nodes"
    and "\<forall>m\<in>set nodes. set (nbrs outgoing m) \<subseteq> set nodes"
    and "(\<Sum>n\<in>set nodes. r n) = 1"
  shows "(\<Sum>n\<in>set nodes. rank_step nodes outgoing N d r n) = 1"
proof -
  have "(\<Sum>n\<in>set nodes. \<Sum>m\<leftarrow>nodes. contrib nodes outgoing N r m n)
      = (\<Sum>n\<in>set nodes. \<Sum>m\<in>set nodes. contrib nodes outgoing N r m n)"
    using assms(3) by (simp add: sum_list_distinct_conv_sum_set)
  also have "\<dots> = (\<Sum>m\<in>set nodes. \<Sum>n\<in>set nodes. contrib nodes outgoing N r m n)"
    by (rule sum.swap)
  also have "\<dots> = (\<Sum>m\<in>set nodes. r m)"
    using assms(1,2,4) by (intro sum.cong refl contrib_total) auto
  finally have inner: "(\<Sum>n\<in>set nodes. \<Sum>m\<leftarrow>nodes. contrib nodes outgoing N r m n) = 1"
    using assms(5) by simp
  have card: "real (card (set nodes)) = real (length nodes)"
    using assms(3) by (simp add: distinct_card)
  have "(\<Sum>n\<in>set nodes. rank_step nodes outgoing N d r n)
      = real (card (set nodes)) * ((1 - d) / real_of_int N)
        + d * (\<Sum>n\<in>set nodes. \<Sum>m\<leftarrow>nodes. contrib nodes outgoing N r m n)"
    by (simp add: rank_step_def sum.distrib sum_distrib_left)
  then show ?thesis
    using assms(1,2) inner card by simp
qed

lemma rank_steps_total:
  assumes "N = int (length nodes)" "nodes \<noteq> []" "distinct nodes"
    and "\<forall>m\<in>set nodes. set (nbrs outgoing m) \<subseteq> set nodes"
    and "(\<Sum>n\<in>set nodes. r n) = 1"
  shows "(\<Sum>n\<in>set nodes. (rank_step nodes outgoing N d ^^ k) r n) = 1"
  using assms by (induction k) (simp_all add: rank_step_total)

lemma dom_as_ranks: "dom (as_ranks nodes r) = set nodes"
  by (auto simp: as_ranks_def dom_def)

text \<open>
  Claim C1. For a non-empty graph whose document ids are distinct and whose links end at
  documents (the foreign key of \<^verbatim>\<open>links\<close>), \<^verbatim>\<open>pagerank_mapreduce\<close> returns a vector over all
  documents whose entries sum to exactly 1, after any number of iterations and for any
  damping factor, dangling nodes included.
\<close>

theorem batch_rank_sums_to_one:
  assumes "documents db \<noteq> []"
    and "distinct (map fst (documents db))"
    and "\<forall>(from_id, to_id)\<in>set (links db). to_id \<in> fst ` set (documents db)"
  shows "\<exists>ranks. pagerank_mapreduce db iterations damping = Inr ranks
           \<and> dom ranks = fst ` set (documents db)
           \<and> (\<Sum>n\<in>dom ranks. the (ranks n)) = 1"
proof -
  obtain nodes outgoing where g: "build_graph db = (nodes, outgoing)"
    by (cases "build_graph db")
  with build_graph_nodes[of db] have n: "nodes = map fst (documents db)" by simp
  with assms have ne: "nodes \<noteq> []" and di: "distinct nodes" by simp_all
  have closed: "\<forall>m\<in>set nodes. set (nbrs outgoing m) \<subseteq> set nodes"
    using build_graph_nbrs[of db] assms(3) g n by fastforce
  let ?r = "(rank_step nodes outgoing (int (length nodes)) damping ^^ nat iterations)
              (\<lambda>_. 1 / real (length nodes))"
  have init: "(\<Sum>n\<in>set nodes. 1 / real (length nodes)) = 1"
    using ne di by (simp add: distinct_card)
  have "(\<Sum>n\<in>set nodes. ?r n) = 1"
    by (rule rank_steps_total[OF refl ne di closed init])
  moreover have "(\<Sum>n\<in>set nodes. the (as_ranks nodes ?r n)) = (\<Sum>n\<in>set nodes. ?r n)"
    by (intro sum.cong) (simp_all add: as_ranks_def)
  ultimately show ?thesis
    using pagerank_mapreduce_closed[OF g ne, of iterations damping] n
    by (simp add: dom_as_ranks)
qed

theorem batch_rank_sums_to_one_witness:
  "documents example_graph_db \<noteq> []
   \<and> distinct (map fst (documents example_graph_db))
   \<and> snd ` set (links example_graph_db) \<subseteq> fst ` set (documents example_graph_db)
   \<and> (\<exists>ranks. pagerank_mapreduce example_graph_db 3 (17/20) = Inr ranks
           \<and> dom ranks = fst ` set (documents example_graph_db)
           \<and> (\<Sum>n\<in>dom ranks. the (ranks n)) = 1)"
  using batch_rank_sums_to_one[of example_graph_db 3 "17/20"]
  by (simp add: example_graph_db_def)

subsection \<open>Lower bound on ranks\<close>

lemma contrib_nonneg: "0 < N \<Longrightarrow> 0 \<le> r m \<Longrightarrow> 0 \<le> contrib nodes outgoing N r m n"
  by (simp add: contrib_def)

lemma rank_step_lower:
  assumes "0 < N" "0 \<le> d" "\<forall>m\<in>set nodes. 0 \<le> r m"
  shows "(1 - d) / real_of_int N \<le> rank_step nodes outgoing N d r n"
proof -
  have "0 \<le> (\<Sum>m\<leftarrow>nodes. contrib nodes outgoing N r m n)"
    using assms(1,3) by (intro sum_list_nonneg) (auto simp: contrib_nonneg)
  then have "0 \<le> d * (\<Sum>m\<leftarrow>nodes. contrib nodes outgoing N r m n)"
    using assms(2) by simp
  then show ?thesis by (simp add: rank_step_def)
qed

lemma rank_steps_positive:
  assumes "0 < N" "0 \<le> d" "d < 1" "\<forall>m. 0 < r m"
  shows "0 < (rank_step nodes outgoing N d ^^ k) r n
         \<and> (0 < k \<longrightarrow> (1 - d) / real_of_int N \<le> (rank_step nodes outgoing N d ^^ k) r n)"
proof (induction k arbitrary: n)
  case 0
  then show ?case using assms(4) by simp
next
  case (Suc k)
  let ?r = "(rank_step nodes outgoing N d ^^ k) r"
  have "\<forall>m\<in>set nodes. 0 \<le> ?r m"
    using Suc.IH by (simp add: less_imp_le)
  from rank_step_lower[OF assms(1,2) this, of outgoing n]
  have lower: "(1 - d) / real_of_int N \<le> rank_step nodes outgoing N d ?r n" .
  moreover have "0 < (1 - d) / real_of_int N"
    using assms(1,3) by simp
  ultimately show ?case by simp
qed

text \<open>
  Claim C10. For a non-empty graph and a damping factor in [0,1), both strategies return
  only strictly positive ranks, and after at least one iteration every rank is at least
  (1 - damping) / N.
\<close>

theorem ranks_bounded_below:
  assumes "documents db \<noteq> []"
    and "distinct (map fst (documents db))"
    and "0 \<le> damping" and "damping < 1"
  shows "\<exists>batch step.
           pagerank_mapreduce db iterations damping = Inr batch
         \<and> pagerank_pregel db iterations damping = Inr step
         \<and> dom batch = fst ` set (documents db)
         \<and> dom step = fst ` set (documents db)
         \<and> (\<forall>n r. batch n = Some r \<or> step n = Some r \<longrightarrow>
               0 < r \<and> (0 < iterations \<longrightarrow> (1 - damping) / real (length (documents db)) \<le> r))"
proof -
  obtain nodes outgoing where g: "build_graph db = (nodes, outgoing)"
    by (cases "build_graph db")
  with build_graph_nodes[of db] have n: "nodes = map fst (documents db)" by simp
  with assms have ne: "nodes \<noteq> []" and di: "distinct nodes" by simp_all
  let ?N = "int (length nodes)"
  let ?r = "(rank_step nodes outgoing ?N damping ^^ nat iterations) (\<lambda>_. 1 / real (length nodes))"
  have pos: "0 < ?N" using ne by simp
  have init: "\<forall>m::int. 0 < 1 / real (length nodes)" using ne by simp
  have bound: "0 < ?r m \<and> (0 < nat iterations \<longrightarrow> (1 - damping) / real_of_int ?N \<le> ?r m)" for m
    using rank_steps_positive[OF pos assms(3,4) init] by blast
  have entry: "0 < r \<and> (0 < iterations \<longrightarrow> (1 - damping) / real (length (documents db)) \<le> r)"
    if "as_ranks nodes ?r m = Some r" for m r
  proof -
    from that have "r = ?r m" by (auto simp: as_ranks_def split: if_splits)
    then show ?thesis using bound[of m] n by simp
  qed
  show ?thesis
    using pagerank_mapreduce_closed[OF g ne, of iterations damping]
      pagerank_pregel_closed[OF g ne di, of iterations damping] entry n
    by (auto simp: dom_as_ranks)
qed

theorem ranks_bounded_below_witness:
  "documents example_graph_db \<noteq> []
   \<and> distinct (map fst (documents example_graph_db))
   \<and> (0::real) \<le> 17/20 \<and> (17/20::real) < 1
   \<and> (\<exists>batch step.
           pagerank_mapreduce example_graph_db 2 (17/20) = Inr batch
         \<and> pagerank_pregel example_graph_db 2 (17/20) = Inr step
         \<and> dom batch = fst ` set (documents example_graph_db)
         \<and> dom step = fst ` set (documents example_graph_db)
         \<and> (\<forall>n r. batch n = Some r \<or> step n = Some r \<longrightarrow>
               0 < r \<and> ((0::int) < 2 \<longrightarrow> (1 - 17/20) / real (length (documents example_graph_db)) \<le> r)))"
  using ranks_bounded_below[of example_graph_db "17/20" 2]
  by (simp add: example_graph_db_def)

section \<open>Retrieval and index build\<close>

subsection \<open>Sorting\<close>

lemma sorted_by_score_desc_sorted:
  "sorted_wrt (\<lambda>a b. snd b \<le> snd a) (sorted_by_score_desc items)"
proof -
  have "sorted (map snd (sort_key snd (rev items)))" by (rule sorted_sort_key)
  then have "sorted_wrt (\<lambda>a b. snd a \<le> snd b) (sort_key snd (rev items))"
    by (simp add: sorted_map)
  then show ?thesis
    by (simp add: sorted_by_score_desc_def sorted_wrt_rev)
qed

lemma sorted_by_score_desc_stable:
  "filter (\<lambda>p. snd p = s) (sorted_by_score_desc items) = filter (\<lambda>p. snd p = s) items"
proof -
  have "filter (\<lambda>p. snd p = s) (sort_key snd (rev items)) = filter (\<lambda>p. snd p = s) (rev items)"
    by (rule sort_key_stable)
  then show ?thesis
    by (simp add: sorted_by_score_desc_def rev_filter[symmetric])
qed

lemma set_sorted_by_score_desc [simp]: "set (sorted_by_score_desc items) = set items"
  by (simp add: sorted_by_score_desc_def)

lemma distinct_sorted_by_score_desc:
  "distinct (map fst (sorted_by_score_desc items)) = distinct (map fst items)"
  by (simp add: sorted_by_score_desc_def rev_map[symmetric] distinct_map)

subsection \<open>Blending\<close>

lemma apply_pagerank_None [simp]: "apply_pagerank None alpha results = results"
  by (simp add: apply_pagerank_def)

lemma apply_pagerank_zero: "apply_pagerank pagerank 0 results = results"
  by (cases pagerank) (simp_all add: apply_pagerank_def case_prod_unfold)

lemma map_fst_apply_pagerank [simp]:
  "map fst (apply_pagerank pagerank alpha results) = map fst results"
  by (cases pagerank) (simp_all add: apply_pagerank_def case_prod_unfold comp_def)

lemma search_by_documents_retrieved:
  "search_by_documents db query_terms pagerank alpha =
     (case retrieved_by_documents db query_terms of
        Inl e \<Rightarrow> Inl e
      | Inr results \<Rightarrow> Inr (sorted_by_score_desc (apply_pagerank pagerank alpha results)))"
  by (simp add: search_by_documents_def retrieved_by_documents_def Let_def
      sorted_by_score_desc_def apply_pagerank_def split: option.splits)

lemma search_by_terms_retrieved:
  "search_by_terms db query_terms pagerank alpha =
     sorted_by_score_desc (apply_pagerank pagerank alpha (retrieved_by_terms db query_terms))"
  by (simp add: search_by_terms_def retrieved_by_terms_def)

subsection \<open>Accumulation\<close>

lemma accumulate_Nil [simp]: "accumulate [] scores = scores"
  by (simp add: accumulate_def)

lemma accumulate_terms_append:
  "accumulate_terms db (xs @ ys) scores = accumulate_terms db ys (accumulate_terms db xs scores)"
  by (simp add: accumulate_terms_def)

lemma accumulate_terms_Cons:
  "accumulate_terms db (t # ts) scores = accumulate_terms db ts (accumulate (get_term_postings db t) scores)"
  by (simp add: accumulate_terms_def)

lemma keys_accumulate:
  "fst ` set (accumulate pl scores) = fst ` set scores \<union> fst ` set pl"
  unfolding accumulate_def
proof (induction pl arbitrary: scores)
  case Nil
  show ?case by simp
next
  case (Cons p pl)
  show ?case by (cases p) (auto simp: Cons.IH dom_update)
qed

lemma keys_accumulate_terms:
  "fst ` set (accumulate_terms db ts scores)
     = fst ` set scores \<union> (\<Union>t\<in>set ts. fst ` set (get_term_postings db t))"
  by (induction ts arbitrary: scores) (auto simp: accumulate_terms_def keys_accumulate)

lemma keys_search_by_terms:
  "fst ` set (search_by_terms db query_terms pagerank alpha)
     = (\<Union>t\<in>set query_terms. fst ` set (get_term_postings db (str_lower t)))"
proof -
  have "fst ` set (search_by_terms db query_terms pagerank alpha)
      = set (map fst (apply_pagerank pagerank alpha (retrieved_by_terms db query_terms)))"
    by (simp only: search_by_terms_retrieved set_sorted_by_score_desc set_map)
  then show ?thesis
    by (simp add: retrieved_by_terms_def keys_accumulate_terms)
qed

subsection \<open>The merge loop\<close>

lemma advance_cursor_ge: "i \<le> advance_cursor pl m i"
proof (induction pl m i rule: advance_cursor.induct)
  case (1 pl m i)
  show ?case
  proof (cases "i < length pl \<and> fst (pl ! i) < m")
    case True
    with 1 have "Suc i \<le> advance_cursor pl m (Suc i)" by simp
    with True show ?thesis by (subst advance_cursor.simps) simp
  next
    case False
    then show ?thesis by (subst advance_cursor.simps) auto
  qed
qed

lemma advance_cursor_keeps:
  "e \<in> fst ` set (drop i pl) \<Longrightarrow> m \<le> e \<Longrightarrow> e \<in> fst ` set (drop (advance_cursor pl m i) pl)"
proof (induction pl m i rule: advance_cursor.induct)
  case (1 pl m i)
  show ?case
  proof (cases "i < length pl \<and> fst (pl ! i) < m")
    case True
    then have "drop i pl = pl ! i # drop (Suc i) pl" by (simp add: Cons_nth_drop_Suc)
    with "1.prems" True have "e \<in> fst ` set (drop (Suc i) pl)" by auto
    with 1 True have "e \<in> fst ` set (drop (advance_cursor pl m (Suc i)) pl)" by simp
    with True show ?thesis by (subst advance_cursor.simps) simp
  next
    case False
    with "1.prems" show ?thesis by (subst advance_cursor.simps) auto
  qed
qed

lemma zip_map_zip:
  "zip xs (map f (zip xs ys)) = map (\<lambda>p. (fst p, f p)) (zip xs ys)"
proof (induction xs arbitrary: ys)
  case Nil
  show ?case by simp
next
  case (Cons x xs)
  then show ?case by (cases ys) simp_all
qed

lemma zip_fst_mem: "p \<in> set (zip xs ys) \<Longrightarrow> fst p \<in> set xs"
  by (cases p) (auto dest: set_zip_leftD)

lemma common_exhausted:
  assumes "list_ex (\<lambda>(pl, i). length pl \<le> i) (zip pls idx)"
  shows "common pls idx = {}"
proof -
  from assms obtain pl i where "(pl, i) \<in> set (zip pls idx)" "length pl \<le> i"
    by (auto simp: list_ex_iff)
  then show ?thesis by (fastforce simp: common_def)
qed

lemma current_ids_equal:
  assumes "zip pls idx \<noteq> []"
    and "Max (set (map (\<lambda>(pl, i). fst (pl ! i)) (zip pls idx)))
         = Min (set (map (\<lambda>(pl, i). fst (pl ! i)) (zip pls idx)))"
    and "p \<in> set (zip pls idx)"
  shows "fst (fst p ! snd p) = Max (set (map (\<lambda>(pl, i). fst (pl ! i)) (zip pls idx)))"
proof -
  let ?cur = "map (\<lambda>(pl, i). fst (pl ! i)) (zip pls idx)"
  have mem: "fst (fst p ! snd p) \<in> set ?cur"
    using assms(3) by (force simp: case_prod_unfold)
  then have "Min (set ?cur) \<le> fst (fst p ! snd p)" "fst (fst p ! snd p) \<le> Max (set ?cur)"
    by simp_all
  with assms(2) show ?thesis by simp
qed

lemma common_match:
  assumes "\<not> list_ex (\<lambda>(pl, i). length pl \<le> i) (zip pls idx)"
    and "zip pls idx \<noteq> []"
    and "Max (set (map (\<lambda>(pl, i). fst (pl ! i)) (zip pls idx)))
         = Min (set (map (\<lambda>(pl, i). fst (pl ! i)) (zip pls idx)))"
  shows "common pls idx
         = insert (Max (set (map (\<lambda>(pl, i). fst (pl ! i)) (zip pls idx)))) (common pls (map Suc idx))"
proof -
  let ?d = "Max (set (map (\<lambda>(pl, i). fst (pl ! i)) (zip pls idx)))"
  have split: "fst ` set (drop (snd p) (fst p)) = insert ?d (fst ` set (drop (Suc (snd p)) (fst p)))"
    if "p \<in> set (zip pls idx)" for p
  proof -
    from that assms(1) have "snd p < length (fst p)" by (auto simp: list_ex_iff)
    then have "drop (snd p) (fst p) = fst p ! snd p # drop (Suc (snd p)) (fst p)"
      by (simp add: Cons_nth_drop_Suc)
    then show ?thesis
      using current_ids_equal[OF assms(2,3) that] by simp
  qed
  have new: "common pls (map Suc idx)
      = {d. \<forall>p\<in>set (zip pls idx). d \<in> fst ` set (drop (Suc (snd p)) (fst p))}"
    by (simp add: common_def zip_map2 case_prod_unfold)
  show ?thesis
    unfolding new unfolding common_def using split by auto
qed

lemma sorted_drop_lower:
  assumes "sorted (map fst pl)" "i < length pl" "e \<in> fst ` set (drop i pl)"
  shows "fst (pl ! i) \<le> e"
proof -
  from assms(3) obtain j where j: "j < length (drop i pl)" "e = fst (drop i pl ! j)"
    by (auto simp: in_set_conv_nth)
  then have "e = map fst pl ! (i + j)" "i + j < length (map fst pl)"
    by simp_all
  moreover have "fst (pl ! i) = map fst pl ! i" using assms(2) by simp
  ultimately show ?thesis
    using assms(1) by (simp only: sorted_nth_mono[of "map fst pl" i "i + j"] le_add1)
qed

lemma common_mismatch:
  assumes "\<not> list_ex (\<lambda>(pl, i). length pl \<le> i) (zip pls idx)"
    and "zip pls idx \<noteq> []"
    and "\<forall>pl\<in>set pls. sorted (map fst pl)"
    and "mx = Max (set (map (\<lambda>(pl, i). fst (pl ! i)) (zip pls idx)))"
  shows "common pls (map (\<lambda>(pl, i). advance_cursor pl mx i) (zip pls idx)) = common pls idx"
proof -
  let ?z = "zip pls idx"
  let ?cur = "map (\<lambda>(pl, i). fst (pl ! i)) ?z"
  have new: "common pls (map (\<lambda>(pl, i). advance_cursor pl mx i) ?z)
      = {d. \<forall>p\<in>set ?z. d \<in> fst ` set (drop (advance_cursor (fst p) mx (snd p)) (fst p))}"
    by (auto simp: common_def zip_map_zip case_prod_unfold)
  have "Max (set ?cur) \<in> set ?cur" using assms(2) by (intro Max_in) simp_all
  then have "mx \<in> (\<lambda>p. fst (fst p ! snd p)) ` set ?z"
    by (simp add: assms(4) case_prod_unfold)
  then obtain q where q: "q \<in> set ?z" "fst (fst q ! snd q) = mx"
    by (elim imageE) simp
  have qin: "snd q < length (fst q)" "sorted (map fst (fst q))"
    using q(1) assms(1,3) zip_fst_mem[OF q(1)] by (auto simp: list_ex_iff)
  have lower: "mx \<le> e" if "e \<in> common pls idx" for e
  proof -
    from that q(1) have "e \<in> fst ` set (drop (snd q) (fst q))" by (simp add: common_def)
    from sorted_drop_lower[OF qin(2) qin(1) this] q(2) show ?thesis by simp
  qed
  show ?thesis
  proof (intro equalityI subsetI)
    fix e assume "e \<in> common pls (map (\<lambda>(pl, i). advance_cursor pl mx i) ?z)"
    then have e: "\<forall>p\<in>set ?z. e \<in> fst ` set (drop (advance_cursor (fst p) mx (snd p)) (fst p))"
      by (simp add: new)
    have "set (drop (advance_cursor pl mx i) pl) \<subseteq> set (drop i pl)" for pl i
      by (rule set_drop_subset_set_drop) (rule advance_cursor_ge)
    with e show "e \<in> common pls idx" by (fastforce simp: common_def)
  next
    fix e assume e: "e \<in> common pls idx"
    then have "\<forall>p\<in>set ?z. e \<in> fst ` set (drop (advance_cursor (fst p) mx (snd p)) (fst p))"
      using lower[OF e] by (auto simp: common_def intro: advance_cursor_keeps)
    then show "e \<in> common pls (map (\<lambda>(pl, i). advance_cursor pl mx i) ?z)"
      by (simp add: new)
  qed
qed

lemma map_of_nth:
  "distinct (map fst xs) \<Longrightarrow> i < length xs \<Longrightarrow> map_of xs (fst (xs ! i)) = Some (snd (xs ! i))"
  by (simp add: map_of_eq_Some_iff)

lemma match_score:
  assumes "\<not> list_ex (\<lambda>(pl, i). length pl \<le> i) (zip pls idx)"
    and "zip pls idx \<noteq> []" and "length idx = length pls"
    and "Max (set (map (\<lambda>(pl, i). fst (pl ! i)) (zip pls idx)))
         = Min (set (map (\<lambda>(pl, i). fst (pl ! i)) (zip pls idx)))"
    and "\<forall>pl\<in>set pls. distinct (map fst pl)"
  shows "sum_list (map (\<lambda>(pl, i). real_of_int (snd (pl ! i))) (zip pls idx))
         = score_sum pls (Max (set (map (\<lambda>(pl, i). fst (pl ! i)) (zip pls idx))))"
proof -
  let ?z = "zip pls idx"
  let ?d = "Max (set (map (\<lambda>(pl, i). fst (pl ! i)) ?z))"
  have "real_of_int (snd (fst p ! snd p)) = real_of_int (tf_in (fst p) ?d)" if "p \<in> set ?z" for p
  proof -
    from that assms(1) have i: "snd p < length (fst p)" by (auto simp: list_ex_iff)
    from zip_fst_mem[OF that] assms(5) have "distinct (map fst (fst p))" by simp
    from map_of_nth[OF this i] current_ids_equal[OF assms(2,4) that]
    show ?thesis by (simp add: tf_in_def)
  qed
  then have "map (\<lambda>(pl, i). real_of_int (snd (pl ! i))) ?z
      = map (\<lambda>p. real_of_int (tf_in (fst p) ?d)) ?z"
    by (intro map_cong refl) (simp add: case_prod_unfold)
  also have "\<dots> = map (\<lambda>pl. real_of_int (tf_in pl ?d)) (map fst ?z)"
    by (simp add: comp_def)
  also have "map fst ?z = pls" using assms(3) by simp
  finally show ?thesis by (simp add: score_sum_def)
qed

lemma merge_loop_exhausted:
  "list_ex (\<lambda>(pl, i). length pl \<le> i) (zip pls idx) \<Longrightarrow> merge_loop pls idx res = Inr res"
  by (subst merge_loop.simps) simp

lemma merge_loop_match:
  assumes "\<not> list_ex (\<lambda>(pl, i). length pl \<le> i) (zip pls idx)" "zip pls idx \<noteq> []"
    and "Max (set (map (\<lambda>(pl, i). fst (pl ! i)) (zip pls idx)))
         = Min (set (map (\<lambda>(pl, i). fst (pl ! i)) (zip pls idx)))"
  shows "merge_loop pls idx res =
     merge_loop pls (map Suc idx)
       (AList.update (Max (set (map (\<lambda>(pl, i). fst (pl ! i)) (zip pls idx))))
          (sum_list (map (\<lambda>(pl, i). real_of_int (snd (pl ! i))) (zip pls idx))) res)"
  using assms by (subst merge_loop.simps) (simp add: Let_def)

lemma merge_loop_mismatch:
  assumes "\<not> list_ex (\<lambda>(pl, i). length pl \<le> i) (zip pls idx)" "zip pls idx \<noteq> []"
    and "Max (set (map (\<lambda>(pl, i). fst (pl ! i)) (zip pls idx)))
         \<noteq> Min (set (map (\<lambda>(pl, i). fst (pl ! i)) (zip pls idx)))"
  shows "merge_loop pls idx res =
     merge_loop pls
       (map (\<lambda>(pl, i). advance_cursor pl (Max (set (map (\<lambda>(pl, i). fst (pl ! i)) (zip pls idx)))) i)
          (zip pls idx)) res"
  using assms by (subst merge_loop.simps) (simp add: Let_def)

lemma merge_loop_result:
  assumes "pls \<noteq> []" "length idx = length pls" "\<forall>pl\<in>set pls. sorted (map fst pl)"
  shows "\<exists>r. merge_loop pls idx res = Inr r
     \<and> fst ` set r = fst ` set res \<union> common pls idx
     \<and> (\<forall>d. d \<notin> common pls idx \<longrightarrow> map_of r d = map_of res d)
     \<and> ((\<forall>pl\<in>set pls. distinct (map fst pl)) \<longrightarrow>
          (\<forall>d\<in>common pls idx. map_of r d = Some (score_sum pls d)))
     \<and> (distinct (map fst res) \<longrightarrow> distinct (map fst r))"
  using assms
proof (induction pls idx res rule: merge_loop.induct)
  case (1 pls idx res)
  let ?z = "zip pls idx"
  let ?cur = "map (\<lambda>(pl, i). fst (pl ! i)) ?z"
  let ?mx = "Max (set ?cur)"
  let ?score = "sum_list (map (\<lambda>(pl, i). real_of_int (snd (pl ! i))) ?z)"
  from "1.prems" have zne: "?z \<noteq> []" by (cases pls; cases idx) simp_all
  then have curne: "?cur \<noteq> []" by simp
  show ?case
  proof (cases "list_ex (\<lambda>(pl, i). length pl \<le> i) ?z")
    case True
    then show ?thesis
      by (simp add: merge_loop_exhausted common_exhausted)
  next
    case live: False
    show ?thesis
    proof (cases "?mx = Min (set ?cur)")
      case True
      have len: "length (map Suc idx) = length pls" using "1.prems" by simp
      from "1.IH"(1)[OF live refl curne refl refl True refl refl "1.prems"(1) len "1.prems"(3)]
      obtain r where r: "merge_loop pls (map Suc idx) (AList.update ?mx ?score res) = Inr r"
        and keys: "fst ` set r = fst ` set (AList.update ?mx ?score res) \<union> common pls (map Suc idx)"
        and rest: "\<forall>d. d \<notin> common pls (map Suc idx) \<longrightarrow> map_of r d = map_of (AList.update ?mx ?score res) d"
        and scores: "(\<forall>pl\<in>set pls. distinct (map fst pl)) \<longrightarrow>
               (\<forall>d\<in>common pls (map Suc idx). map_of r d = Some (score_sum pls d))"
        and dist: "distinct (map fst (AList.update ?mx ?score res)) \<longrightarrow> distinct (map fst r)"
        by blast
      have cm: "common pls idx = insert ?mx (common pls (map Suc idx))"
        by (rule common_match[OF live zne True])
      have "merge_loop pls idx res = Inr r"
        using merge_loop_match[OF live zne True, of res] r by simp
      moreover have "fst ` set r = fst ` set res \<union> common pls idx"
        using keys by (auto simp: cm dom_update)
      moreover have "\<forall>d. d \<notin> common pls idx \<longrightarrow> map_of r d = map_of res d"
        using rest by (simp add: cm update_conv')
      moreover have "(\<forall>pl\<in>set pls. distinct (map fst pl)) \<longrightarrow>
          (\<forall>d\<in>common pls idx. map_of r d = Some (score_sum pls d))"
      proof (intro impI ballI)
        fix d assume di: "\<forall>pl\<in>set pls. distinct (map fst pl)" and d: "d \<in> common pls idx"
        have sc: "?score = score_sum pls ?mx"
          by (rule match_score[OF live zne "1.prems"(2) True di])
        show "map_of r d = Some (score_sum pls d)"
        proof (cases "d \<in> common pls (map Suc idx)")
          case True
          with scores di show ?thesis by simp
        next
          case False
          with d cm have "d = ?mx" by simp
          with False rest sc show ?thesis by (simp add: update_conv')
        qed
      qed
      moreover have "distinct (map fst res) \<longrightarrow> distinct (map fst r)"
        using dist by (simp add: distinct_update)
      ultimately show ?thesis by blast
    next
      case False
      let ?idx' = "map (\<lambda>(pl, i). advance_cursor pl ?mx i) ?z"
      have len: "length ?idx' = length pls" using "1.prems" by simp
      from "1.IH"(2)[OF live refl curne refl refl False "1.prems"(1) len "1.prems"(3)]
      obtain r where r: "merge_loop pls ?idx' res = Inr r"
        and keys: "fst ` set r = fst ` set res \<union> common pls ?idx'"
        and rest: "\<forall>d. d \<notin> common pls ?idx' \<longrightarrow> map_of r d = map_of res d"
        and scores: "(\<forall>pl\<in>set pls. distinct (map fst pl)) \<longrightarrow>
               (\<forall>d\<in>common pls ?idx'. map_of r d = Some (score_sum pls d))"
        and dist: "distinct (map fst res) \<longrightarrow> distinct (map fst r)"
        by blast
      have cm: "common pls ?idx' = common pls idx"
        by (rule common_mismatch[OF live zne "1.prems"(3) refl])
      have "merge_loop pls idx res = Inr r"
        using merge_loop_mismatch[OF live zne False, of res] r by simp
      with keys rest scores dist show ?thesis
        unfolding cm by blast
    qed
  qed
qed

subsection \<open>Retrieval strategies\<close>

lemma sorted_get_term_postings: "sorted (map fst (get_term_postings db t))"
  by (simp add: get_term_postings_def sorted_sort_key split: option.splits prod.splits)

lemma common_start: "common pls (map (\<lambda>_. 0) pls) = {d. \<forall>pl\<in>set pls. d \<in> fst ` set pl}"
  by (simp add: common_def zip_map2 zip_same_conv_map)

lemma retrieved_by_documents_unfold:
  assumes "pls = map (get_term_postings db) (map str_lower query_terms)"
  shows "retrieved_by_documents db query_terms =
     (if pls = [] \<or> list_ex (\<lambda>pl. pl = []) pls then Inr []
      else merge_loop pls (map (\<lambda>_. 0) pls) [])"
  unfolding assms by (simp add: retrieved_by_documents_def Let_def)

lemma retrieved_by_documents_total:
  "\<exists>raw. retrieved_by_documents db query_terms = Inr raw
      \<and> distinct (map fst raw)
      \<and> fst ` set raw \<subseteq> {d. \<forall>t\<in>set query_terms. d \<in> fst ` set (get_term_postings db (str_lower t))}"
proof -
  define pls where "pls = map (get_term_postings db) (map str_lower query_terms)"
  have mem: "get_term_postings db (str_lower t) \<in> set pls" if "t \<in> set query_terms" for t
    using that by (simp add: pls_def)
  show ?thesis
  proof (cases "pls = [] \<or> list_ex (\<lambda>pl. pl = []) pls")
    case True
    then show ?thesis by (simp add: retrieved_by_documents_unfold[OF pls_def])
  next
    case False
    then have ne: "pls \<noteq> []" by simp
    have so: "\<forall>pl\<in>set pls. sorted (map fst pl)"
      by (auto simp: pls_def sorted_get_term_postings)
    from merge_loop_result[OF ne _ so, of "map (\<lambda>_. 0) pls" "[]"]
    obtain r where r: "merge_loop pls (map (\<lambda>_. 0) pls) [] = Inr r"
      "fst ` set r = common pls (map (\<lambda>_. 0) pls)" "distinct (map fst r)"
      by auto
    have "fst ` set r \<subseteq> {d. \<forall>t\<in>set query_terms. d \<in> fst ` set (get_term_postings db (str_lower t))}"
      unfolding r(2) common_start using mem by blast
    then show ?thesis
      using False r by (simp add: retrieved_by_documents_unfold[OF pls_def])
  qed
qed

lemma retrieved_by_documents_exact:
  "\<exists>raw. retrieved_by_documents db query_terms = Inr raw
      \<and> distinct (map fst raw)
      \<and> fst ` set raw
          = {d. (\<exists>t\<in>set query_terms. d \<in> fst ` set (get_term_postings db (str_lower t)))
              \<and> (\<forall>t\<in>set query_terms. d \<in> fst ` set (get_term_postings db (str_lower t)))}
      \<and> ((\<forall>t\<in>set query_terms. distinct (map fst (get_term_postings db (str_lower t)))) \<longrightarrow>
           (\<forall>(d, s)\<in>set raw.
              s = (\<Sum>t\<leftarrow>query_terms. real_of_int (tf_in (get_term_postings db (str_lower t)) d))))"
proof -
  define pls where "pls = map (get_term_postings db) (map str_lower query_terms)"
  have setpls: "set pls = (\<lambda>t. get_term_postings db (str_lower t)) ` set query_terms"
    by (auto simp: pls_def)
  have sums: "score_sum pls d
      = (\<Sum>t\<leftarrow>query_terms. real_of_int (tf_in (get_term_postings db (str_lower t)) d))" for d
    by (simp add: pls_def score_sum_def comp_def)
  show ?thesis
  proof (cases "pls = [] \<or> list_ex (\<lambda>pl. pl = []) pls")
    case True
    then have "query_terms = [] \<or> (\<exists>t\<in>set query_terms. get_term_postings db (str_lower t) = [])"
      by (force simp: pls_def list_ex_iff)
    then have "{d. (\<exists>t\<in>set query_terms. d \<in> fst ` set (get_term_postings db (str_lower t)))
              \<and> (\<forall>t\<in>set query_terms. d \<in> fst ` set (get_term_postings db (str_lower t)))} = {}"
      by fastforce
    with True show ?thesis
      by (simp add: retrieved_by_documents_unfold[OF pls_def])
  next
    case guard: False
    then have ne: "pls \<noteq> []" by simp
    then obtain t0 where t0: "t0 \<in> set query_terms" by (cases query_terms) (auto simp: pls_def)
    have so: "\<forall>pl\<in>set pls. sorted (map fst pl)"
      by (auto simp: setpls sorted_get_term_postings)
    from merge_loop_result[OF ne _ so, of "map (\<lambda>_. 0) pls" "[]"]
    obtain r where r: "merge_loop pls (map (\<lambda>_. 0) pls) [] = Inr r"
      and keys: "fst ` set r = common pls (map (\<lambda>_. 0) pls)"
      and scores: "(\<forall>pl\<in>set pls. distinct (map fst pl)) \<longrightarrow>
            (\<forall>d\<in>common pls (map (\<lambda>_. 0) pls). map_of r d = Some (score_sum pls d))"
      and dist: "distinct (map fst r)"
      by auto
    have raw: "retrieved_by_documents db query_terms = Inr r"
      using guard r by (simp add: retrieved_by_documents_unfold[OF pls_def])
    have k: "fst ` set r
          = {d. (\<exists>t\<in>set query_terms. d \<in> fst ` set (get_term_postings db (str_lower t)))
              \<and> (\<forall>t\<in>set query_terms. d \<in> fst ` set (get_term_postings db (str_lower t)))}"
      unfolding keys common_start setpls using t0 by blast
    have sc: "\<forall>(d, s)\<in>set r. s = (\<Sum>t\<leftarrow>query_terms. real_of_int (tf_in (get_term_postings db (str_lower t)) d))"
      if di: "\<forall>t\<in>set query_terms. distinct (map fst (get_term_postings db (str_lower t)))"
    proof (intro ballI, clarify)
      fix d s assume ds: "(d, s) \<in> set r"
      then have "d \<in> common pls (map (\<lambda>_. 0) pls)" using keys by force
      moreover have "\<forall>pl\<in>set pls. distinct (map fst pl)" using di by (auto simp: setpls)
      ultimately have "map_of r d = Some (score_sum pls d)" using scores by blast
      moreover have "map_of r d = Some s" using ds dist by (simp add: map_of_eq_Some_iff)
      ultimately show "s = (\<Sum>t\<leftarrow>query_terms. real_of_int (tf_in (get_term_postings db (str_lower t)) d))"
        by (simp add: sums)
    qed
    show ?thesis using raw dist k sc by blast
  qed
qed

text \<open>
  Claim C3. For every index and query, \<^verbatim>\<open>search_by_documents\<close> returns, once each, exactly
  the documents that occur in the posting list of every query term (and of at least one: the
  empty query returns nothing). When every posting list holds one posting per document, the
  score of each returned document before blending (in \<open>retrieved\<close>) is the sum of its term
  frequencies over the query terms. The result is that dictionary, blended and sorted.
\<close>

theorem search_by_documents_intersection:
  "\<exists>retrieved results.
        retrieved_by_documents db query_terms = Inr retrieved
      \<and> search_by_documents db query_terms pagerank alpha = Inr results
      \<and> results = sorted_by_score_desc (apply_pagerank pagerank alpha retrieved)
      \<and> distinct (map fst results)
      \<and> fst ` set results
          = {d. (\<exists>t\<in>set query_terms. d \<in> fst ` set (get_term_postings db (str_lower t)))
              \<and> (\<forall>t\<in>set query_terms. d \<in> fst ` set (get_term_postings db (str_lower t)))}
      \<and> ((\<forall>t\<in>set query_terms. distinct (map fst (get_term_postings db (str_lower t)))) \<longrightarrow>
           (\<forall>(d, s)\<in>set retrieved.
              s = (\<Sum>t\<leftarrow>query_terms. real_of_int (tf_in (get_term_postings db (str_lower t)) d))))"
proof -
  from retrieved_by_documents_exact[of db query_terms]
  obtain raw where raw: "retrieved_by_documents db query_terms = Inr raw"
    and dist: "distinct (map fst raw)"
    and keys: "fst ` set raw
          = {d. (\<exists>t\<in>set query_terms. d \<in> fst ` set (get_term_postings db (str_lower t)))
              \<and> (\<forall>t\<in>set query_terms. d \<in> fst ` set (get_term_postings db (str_lower t)))}"
    and sc: "(\<forall>t\<in>set query_terms. distinct (map fst (get_term_postings db (str_lower t)))) \<longrightarrow>
           (\<forall>(d, s)\<in>set raw.
              s = (\<Sum>t\<leftarrow>query_terms. real_of_int (tf_in (get_term_postings db (str_lower t)) d)))"
    by blast
  let ?res = "sorted_by_score_desc (apply_pagerank pagerank alpha raw)"
  have "search_by_documents db query_terms pagerank alpha = Inr ?res"
    by (simp add: search_by_documents_retrieved raw)
  moreover have "distinct (map fst ?res)"
    using dist by (simp add: distinct_sorted_by_score_desc)
  moreover have "fst ` set ?res = set (map fst (apply_pagerank pagerank alpha raw))"
    by (simp only: set_sorted_by_score_desc set_map)
  ultimately show ?thesis
    using raw keys sc by (intro exI[of _ raw] exI[of _ ?res]) simp
qed

theorem search_by_documents_intersection_witness:
  "\<exists>results. search_by_documents example_index_db [[97], [98]] None 0 = Inr results
      \<and> fst ` set results = {2, 3} \<and> set results = {(2, 6), (3, 2)}"
proof -
  have a: "get_term_postings example_index_db [97] = [(1, 2), (2, 5), (3, 1)]"
    by (simp add: get_term_postings_def example_index_db_def)
  have b: "get_term_postings example_index_db [98] = [(2, 1), (3, 1), (4, 7)]"
    by (simp add: get_term_postings_def example_index_db_def)
  have l: "str_lower [97] = [97]" "str_lower [98] = [98]"
    by (simp_all add: str_lower_def char_lower_def)
  from search_by_documents_intersection[of example_index_db "[[97], [98]]" None 0]
  obtain retrieved results where
    r: "search_by_documents example_index_db [[97], [98]] None 0 = Inr results"
      "results = sorted_by_score_desc (apply_pagerank None 0 retrieved)"
      "fst ` set results
        = {d. (\<exists>t\<in>set [[97], [98]]. d \<in> fst ` set (get_term_postings example_index_db (str_lower t)))
            \<and> (\<forall>t\<in>set [[97], [98]]. d \<in> fst ` set (get_term_postings example_index_db (str_lower t)))}"
      "(\<forall>t\<in>set [[97], [98]]. distinct (map fst (get_term_postings example_index_db (str_lower t)))) \<longrightarrow>
         (\<forall>(d, s)\<in>set retrieved.
            s = (\<Sum>t\<leftarrow>[[97], [98]]. real_of_int (tf_in (get_term_postings example_index_db (str_lower t)) d)))"
    by blast
  have keys: "fst ` set results = {2, 3}" unfolding r(3) by (auto simp: a b l)
  have r4: "\<forall>(d, s)\<in>set retrieved. s = real_of_int (tf_in [(1, 2), (2, 5), (3, 1)] d)
          + real_of_int (tf_in [(2, 1), (3, 1), (4, 7)] d)"
    using r(4) by (simp add: a b l)
  have sr: "set results = set retrieved" by (simp add: r(2))
  have val: "snd p = real_of_int (tf_in [(1, 2), (2, 5), (3, 1)] (fst p))
          + real_of_int (tf_in [(2, 1), (3, 1), (4, 7)] (fst p))" if "p \<in> set results" for p
  proof -
    from that have "p \<in> set retrieved" by (simp add: sr)
    with r4 have "case p of (d, s) \<Rightarrow> s = real_of_int (tf_in [(1, 2), (2, 5), (3, 1)] d)
          + real_of_int (tf_in [(2, 1), (3, 1), (4, 7)] d)"
      by blast
    then show ?thesis by (simp add: case_prod_unfold)
  qed
  have "set results = {(2, 6), (3, 2)}"
  proof (intro equalityI subsetI)
    fix p assume p: "p \<in> set results"
    then have "fst p \<in> {2, 3}" using keys by force
    with val[OF p] show "p \<in> {(2, 6), (3, 2)}"
      by (auto simp: tf_in_def prod_eq_iff)
  next
    fix p :: "int \<times> real" assume pin: "p \<in> {(2, 6), (3, 2)}"
    then have "fst p \<in> fst ` set results" using keys by auto
    then obtain q where q: "q \<in> set results" "fst q = fst p" by auto
    with val[OF q(1)] pin have "q = p"
      by (auto simp: tf_in_def prod_eq_iff)
    with q(1) show "p \<in> set results" by simp
  qed
  with r(1) keys show ?thesis by blast
qed

text \<open>
  Claim C4. When a query term has an empty posting list (for instance because the term is
  not in the index), \<^verbatim>\<open>search_by_documents\<close> returns the empty list, by the guard before the
  merge loop, and \<^verbatim>\<open>search_by_terms\<close> returns what it returns for the query without that term.
\<close>

theorem absent_term_short_circuit:
  assumes "get_term_postings db (str_lower t) = []"
  shows "search_by_documents db (xs @ t # ys) pagerank alpha = Inr []
       \<and> search_by_terms db (xs @ t # ys) pagerank alpha
           = search_by_terms db (xs @ ys) pagerank alpha"
proof -
  have "list_ex (\<lambda>pl. pl = []) (map (get_term_postings db) (map str_lower (xs @ t # ys)))"
    using assms by (simp add: list_ex_iff)
  then have "search_by_documents db (xs @ t # ys) pagerank alpha = Inr []"
    by (simp add: search_by_documents_def Let_def del: map_append map_map list.map)
  moreover have "accumulate_terms db (map str_lower (xs @ t # ys)) []
      = accumulate_terms db (map str_lower (xs @ ys)) []"
    using assms by (simp add: accumulate_terms_append accumulate_terms_Cons)
  ultimately show ?thesis
    by (simp add: search_by_terms_def Let_def del: map_append)
qed

lemma absent_term_no_postings:
  "t \<notin> snd ` set (terms db) \<Longrightarrow> get_term_postings db t = []"
proof -
  assume "t \<notin> snd ` set (terms db)"
  then have "find (\<lambda>(i, t'). t' = t) (terms db) = None"
    by (force simp: find_None_iff)
  then show ?thesis by (simp add: get_term_postings_def)
qed

theorem absent_term_short_circuit_witness:
  "get_term_postings example_index_db (str_lower [67]) = []
   \<and> search_by_documents example_index_db [[97], [67], [98]] None 0 = Inr []
   \<and> search_by_terms example_index_db [[97], [67], [98]] None 0
       = search_by_terms example_index_db [[97], [98]] None 0"
proof -
  have "get_term_postings example_index_db (str_lower [67]) = []"
    by (rule absent_term_no_postings)
       (simp add: example_index_db_def str_lower_def char_lower_def)
  from this absent_term_short_circuit[OF this, of "[[97]]" "[[98]]" None 0]
  show ?thesis by simp
qed

text \<open>
  Claim C5. The documents \<^verbatim>\<open>search_by_terms\<close> returns are exactly those occurring in the
  posting list of at least one query term, and they include every document that
  \<^verbatim>\<open>search_by_documents\<close> returns for the same query and index.
\<close>

theorem union_contains_intersection:
  "fst ` set (search_by_terms db query_terms pagerank alpha)
     = (\<Union>t\<in>set query_terms. fst ` set (get_term_postings db (str_lower t)))
   \<and> (\<exists>results. search_by_documents db query_terms pagerank alpha = Inr results
         \<and> fst ` set results \<subseteq> fst ` set (search_by_terms db query_terms pagerank alpha))"
proof -
  from retrieved_by_documents_total[of db query_terms]
  obtain raw where raw: "retrieved_by_documents db query_terms = Inr raw"
    and sub: "fst ` set raw \<subseteq> {d. \<forall>t\<in>set query_terms. d \<in> fst ` set (get_term_postings db (str_lower t))}"
    by blast
  let ?res = "sorted_by_score_desc (apply_pagerank pagerank alpha raw)"
  have res: "search_by_documents db query_terms pagerank alpha = Inr ?res"
    by (simp add: search_by_documents_retrieved raw)
  have "fst ` set ?res = set (map fst (apply_pagerank pagerank alpha raw))"
    by (simp only: set_sorted_by_score_desc set_map)
  then have keys: "fst ` set ?res = fst ` set raw" by simp
  have empty: "raw = []" if "query_terms = []"
    using raw that by (simp add: retrieved_by_documents_def)
  have "fst ` set ?res \<subseteq> (\<Union>t\<in>set query_terms. fst ` set (get_term_postings db (str_lower t)))"
  proof (cases "query_terms = []")
    case True
    then show ?thesis using empty keys by simp
  next
    case False
    then obtain t where "t \<in> set query_terms" by (cases query_terms) auto
    with sub show ?thesis unfolding keys by blast
  qed
  with res show ?thesis by (simp add: keys_search_by_terms)
qed

theorem union_contains_intersection_witness:
  "fst ` set (search_by_terms example_index_db [[97], [98]] None 0) = {1, 2, 3, 4}
   \<and> (\<exists>results. search_by_documents example_index_db [[97], [98]] None 0 = Inr results
         \<and> fst ` set results \<subseteq> {1, 2, 3, 4})"
proof -
  have a: "get_term_postings example_index_db [97] = [(1, 2), (2, 5), (3, 1)]"
    by (simp add: get_term_postings_def example_index_db_def)
  have b: "get_term_postings example_index_db [98] = [(2, 1), (3, 1), (4, 7)]"
    by (simp add: get_term_postings_def example_index_db_def)
  have l: "str_lower [97] = [97]" "str_lower [98] = [98]"
    by (simp_all add: str_lower_def char_lower_def)
  have "(\<Union>t\<in>set [[97], [98]]. fst ` set (get_term_postings example_index_db (str_lower t)))
      = {1, 2, 3, 4}"
    by (auto simp: a b l)
  with union_contains_intersection[of example_index_db "[[97], [98]]" None 0]
  show ?thesis by auto
qed

text \<open>
  Claim C6. With an authority vector and \<open>alpha = 0\<close>, either strategy returns the same
  list (documents, scores and order) as with no authority vector, whatever \<open>alpha\<close> is then.
\<close>

theorem alpha_zero_is_no_authority:
  "search_by_documents db query_terms (Some pr) 0 = search_by_documents db query_terms None alpha
   \<and> search_by_terms db query_terms (Some pr) 0 = search_by_terms db query_terms None alpha"
  by (simp add: search_by_documents_retrieved search_by_terms_retrieved apply_pagerank_zero
      split: sum.splits)

theorem alpha_zero_is_no_authority_witness:
  "search_by_documents example_index_db [[97], [98]] (Some [(2, 1/2), (3, 1/4)]) 0
     = search_by_documents example_index_db [[97], [98]] None (1/10)
   \<and> search_by_terms example_index_db [[97], [98]] (Some [(2, 1/2), (3, 1/4)]) 0
     = search_by_terms example_index_db [[97], [98]] None (1/10)"
  by (rule alpha_zero_is_no_authority)

lemma keys_update:
  "map fst (AList.update k v al) = (if k \<in> set (map fst al) then map fst al else map fst al @ [k])"
  by (induction al) auto

lemma keys_accumulate_order:
  "map fst (accumulate pl scores) = first_seen (map fst pl) (map fst scores)"
  unfolding accumulate_def first_seen_def
proof (induction pl arbitrary: scores)
  case Nil
  show ?case by simp
next
  case (Cons p pl)
  show ?case by (cases p) (simp add: Cons.IH keys_update)
qed

lemma first_seen_append: "first_seen (xs @ ys) seen = first_seen ys (first_seen xs seen)"
  by (simp add: first_seen_def)

lemma keys_accumulate_terms_order:
  "map fst (accumulate_terms db ts scores)
     = first_seen (concat (map (\<lambda>t. map fst (get_term_postings db t)) ts)) (map fst scores)"
proof (induction ts arbitrary: scores)
  case Nil
  show ?case by (simp add: accumulate_terms_def first_seen_def)
next
  case (Cons t ts)
  show ?case
    by (simp add: accumulate_terms_Cons Cons.IH keys_accumulate_order first_seen_append)
qed

text \<open>
  Claim C7. The list either strategy returns is in descending order of score, and for every
  score the documents having it appear in the order of the dictionary that was sorted, which
  is the order in which the merge loop or the accumulation first produced them (for
  \<^verbatim>\<open>search_by_terms\<close>: the order of first occurrence in the posting lists, query term by
  query term).
\<close>

theorem results_sorted_descending_stable:
  "sorted_wrt (\<lambda>a b. snd b \<le> snd a) (search_by_terms db query_terms pagerank alpha)
   \<and> (\<forall>s. filter (\<lambda>p. snd p = s) (search_by_terms db query_terms pagerank alpha)
          = filter (\<lambda>p. snd p = s) (apply_pagerank pagerank alpha (retrieved_by_terms db query_terms)))
   \<and> map fst (retrieved_by_terms db query_terms)
       = first_seen (concat (map (\<lambda>t. map fst (get_term_postings db (str_lower t))) query_terms)) []
   \<and> (\<exists>retrieved results.
          retrieved_by_documents db query_terms = Inr retrieved
        \<and> search_by_documents db query_terms pagerank alpha = Inr results
        \<and> sorted_wrt (\<lambda>a b. snd b \<le> snd a) results
        \<and> (\<forall>s. filter (\<lambda>p. snd p = s) results
               = filter (\<lambda>p. snd p = s) (apply_pagerank pagerank alpha retrieved)))"
proof -
  from retrieved_by_documents_total[of db query_terms]
  obtain raw where raw: "retrieved_by_documents db query_terms = Inr raw" by blast
  have "search_by_documents db query_terms pagerank alpha
      = Inr (sorted_by_score_desc (apply_pagerank pagerank alpha raw))"
    by (simp add: search_by_documents_retrieved raw)
  then have docs: "\<exists>retrieved results.
          retrieved_by_documents db query_terms = Inr retrieved
        \<and> search_by_documents db query_terms pagerank alpha = Inr results
        \<and> sorted_wrt (\<lambda>a b. snd b \<le> snd a) results
        \<and> (\<forall>s. filter (\<lambda>p. snd p = s) results
               = filter (\<lambda>p. snd p = s) (apply_pagerank pagerank alpha retrieved))"
    using raw sorted_by_score_desc_sorted sorted_by_score_desc_stable by blast
  have order: "map fst (retrieved_by_terms db query_terms)
       = first_seen (concat (map (\<lambda>t. map fst (get_term_postings db (str_lower t))) query_terms)) []"
    by (simp add: retrieved_by_terms_def keys_accumulate_terms_order comp_def)
  show ?thesis
    using docs order
    by (simp add: search_by_terms_retrieved sorted_by_score_desc_sorted sorted_by_score_desc_stable)
qed

theorem results_sorted_descending_stable_witness:
  "sorted_wrt (\<lambda>a b. snd b \<le> snd a) (search_by_terms example_index_db [[97], [98]] None 0)
   \<and> map fst (retrieved_by_terms example_index_db [[97], [98]]) = [1, 2, 3, 4]
   \<and> search_by_terms example_index_db [[97], [98]] None 0 = [(4, 7), (2, 6), (1, 2), (3, 2)]"
proof -
  have a: "get_term_postings example_index_db [97] = [(1, 2), (2, 5), (3, 1)]"
    by (simp add: get_term_postings_def example_index_db_def)
  have b: "get_term_postings example_index_db [98] = [(2, 1), (3, 1), (4, 7)]"
    by (simp add: get_term_postings_def example_index_db_def)
  have l: "str_lower [97] = [97]" "str_lower [98] = [98]"
    by (simp_all add: str_lower_def char_lower_def)
  have "search_by_terms example_index_db [[97], [98]] None 0 = [(4, 7), (2, 6), (1, 2), (3, 2)]"
    by (simp add: search_by_terms_def accumulate_terms_def accumulate_def a b l
        sorted_by_score_desc_def)
  with results_sorted_descending_stable[of example_index_db "[[97], [98]]" None 0]
  show ?thesis by (simp add: a b l first_seen_def)
qed

subsection \<open>Tokenizer\<close>

lemma findall_scan_tokens:
  "\<forall>c\<in>set cur. in_token_class c \<Longrightarrow>
   \<forall>tok\<in>set (findall_scan cur s). tok \<noteq> [] \<and> (\<forall>c\<in>set tok. in_token_class c)"
proof (induction s arbitrary: cur)
  case Nil
  then show ?case by simp
next
  case (Cons a s)
  show ?case
  proof (cases "in_token_class a")
    case True
    with Cons.prems have "\<forall>c\<in>set (cur @ [a]). in_token_class c" by simp
    from Cons.IH[OF this] True show ?thesis by simp
  next
    case False
    have "\<forall>c\<in>set ([]::nat list). in_token_class c" by simp
    from Cons.IH[OF this] False Cons.prems show ?thesis by simp
  qed
qed

lemma findall_scan_separator:
  "\<not> in_token_class sep \<Longrightarrow>
   findall_scan cur (xs @ sep # ys) = findall_scan cur xs @ findall_scan [] ys"
  by (induction xs arbitrary: cur) auto

lemma findall_scan_run:
  "\<forall>c\<in>set s. in_token_class c \<Longrightarrow>
   findall_scan cur s = (if cur @ s = [] then [] else [cur @ s])"
  by (induction s arbitrary: cur) auto

lemma char_lower_class:
  "in_token_class c \<Longrightarrow> in_token_class (char_lower c) \<and> char_lower (char_lower c) = char_lower c"
  by (auto simp: in_token_class_def char_lower_def)

text \<open>
  Claim C8, as amended. The tokenizer never fails on a string. Its tokens are non-empty and
  made of lower-case word characters only; the word characters include the ASCII digits,
  the ASCII letters and the Cyrillic letters U+0410 to U+044F; the letters of the extended
  Latin ranges U+00C0 to U+024F are not word characters. A character outside the class
  separates tokens, and a non-empty run of word characters is one token, lower-cased.
\<close>

theorem tokenize_word_class:
  "(\<exists>toks. tokenize (Some text) = Inr toks
       \<and> (\<forall>tok\<in>set toks. tok \<noteq> [] \<and> (\<forall>c\<in>set tok. in_token_class c \<and> char_lower c = c)))
   \<and> (c \<in> {48..57} \<union> {65..90} \<union> {97..122} \<union> {1040..1103} \<longrightarrow> in_token_class c)
   \<and> (192 \<le> e \<and> e \<le> 591 \<longrightarrow> \<not> in_token_class e)
   \<and> (\<not> in_token_class sep \<longrightarrow>
        tokenize (Some (xs @ sep # ys))
          = Inr (map str_lower (TOKEN_RE_findall xs) @ map str_lower (TOKEN_RE_findall ys)))
   \<and> (run \<noteq> [] \<and> (\<forall>c\<in>set run. in_token_class c) \<longrightarrow>
        tokenize (Some run) = Inr [str_lower run])"
proof -
  have "\<forall>tok\<in>set (findall_scan [] text). tok \<noteq> [] \<and> (\<forall>c\<in>set tok. in_token_class c)"
    by (rule findall_scan_tokens) simp
  then have "\<forall>tok\<in>set (map str_lower (TOKEN_RE_findall text)).
       tok \<noteq> [] \<and> (\<forall>c\<in>set tok. in_token_class c \<and> char_lower c = c)"
    by (auto simp: TOKEN_RE_findall_def str_lower_def char_lower_class)
  then have first: "\<exists>toks. tokenize (Some text) = Inr toks
       \<and> (\<forall>tok\<in>set toks. tok \<noteq> [] \<and> (\<forall>c\<in>set tok. in_token_class c \<and> char_lower c = c))"
    by (simp add: tokenize_def)
  have second: "c \<in> {48..57} \<union> {65..90} \<union> {97..122} \<union> {1040..1103} \<longrightarrow> in_token_class c"
    by (auto simp: in_token_class_def)
  have third: "192 \<le> e \<and> e \<le> 591 \<longrightarrow> \<not> in_token_class e"
    by (auto simp: in_token_class_def)
  have fourth: "\<not> in_token_class sep \<longrightarrow>
        tokenize (Some (xs @ sep # ys))
          = Inr (map str_lower (TOKEN_RE_findall xs) @ map str_lower (TOKEN_RE_findall ys))"
    by (simp add: tokenize_def TOKEN_RE_findall_def findall_scan_separator)
  have fifth: "run \<noteq> [] \<and> (\<forall>c\<in>set run. in_token_class c) \<longrightarrow>
        tokenize (Some run) = Inr [str_lower run]"
    by (simp add: tokenize_def TOKEN_RE_findall_def findall_scan_run)
  from first second third fourth fifth show ?thesis by blast
qed

theorem tokenize_word_class_witness:
  "tokenize (Some ([72, 105] @ 44 # [1046, 1091])) = Inr [[104, 105], [1078, 1091]]
   \<and> tokenize (Some [1046, 1091, 50]) = Inr [[1078, 1091, 50]]
   \<and> in_token_class 1046 \<and> \<not> in_token_class 233"
  using tokenize_word_class[of "[72, 105]" 1046 233 44 "[72, 105]" "[1046, 1091]" "[1046, 1091, 50]"]
  by (simp add: in_token_class_def TOKEN_RE_findall_def str_lower_def char_lower_def)

text \<open>
  Claim C8 as first stated fails: in "caf" followed by U+00E9, and in "na", U+00EF, "ve",
  the extended Latin letter ends the token.
\<close>

theorem tokenize_splits_on_extended_latin:
  "tokenize (Some [99, 97, 102, 233]) = Inr [[99, 97, 102]]
   \<and> tokenize (Some [110, 97, 239, 118, 101]) = Inr [[110, 97], [118, 101]]"
  by (simp add: tokenize_def TOKEN_RE_findall_def in_token_class_def str_lower_def char_lower_def)

subsection \<open>Index build\<close>

lemma find_append_first:
  "find P (xs @ ys) = (case find P xs of None \<Rightarrow> find P ys | Some x \<Rightarrow> Some x)"
  by (induction xs) simp_all

lemma get_or_create_resolves:
  assumes "get_or_create_term_id db term = (i, db')"
  shows "term_id_of db' term = Some i" "postings db' = postings db"
  using assms
  by (auto simp: get_or_create_term_id_def term_id_of_def Let_def find_append_first
      split: option.splits prod.splits)

lemma get_or_create_keeps:
  assumes "get_or_create_term_id db term = (i, db')" "term_id_of db t = Some j"
  shows "term_id_of db' t = Some j"
  using assms
  by (auto simp: get_or_create_term_id_def term_id_of_def Let_def find_append_first
      split: option.splits prod.splits)

lemma insert_postings_Nil [simp]: "insert_postings db doc_id [] = db"
  by (simp add: insert_postings_def)

lemma insert_postings_Cons:
  "insert_postings db doc_id ((term, tf) # rest) =
     insert_postings
       (let (term_id, d') = get_or_create_term_id db term
        in d'\<lparr>postings := postings d' @ [(term_id, doc_id, tf)]\<rparr>) doc_id rest"
  by (simp add: insert_postings_def)

lemma term_id_of_postings [simp]: "term_id_of (db\<lparr>postings := ps\<rparr>) t = term_id_of db t"
  by (simp add: term_id_of_def)

lemma add_posting_new:
  "has_posting (let (term_id, d') = get_or_create_term_id db term
                in d'\<lparr>postings := postings d' @ [(term_id, doc_id, tf)]\<rparr>) term doc_id tf"
proof -
  obtain i db' where g: "get_or_create_term_id db term = (i, db')"
    by (cases "get_or_create_term_id db term")
  from get_or_create_resolves(1)[OF g] show ?thesis
    by (auto simp: g has_posting_def)
qed

lemma add_posting_keeps:
  assumes "has_posting db t d f"
  shows "has_posting (let (term_id, d') = get_or_create_term_id db term
                      in d'\<lparr>postings := postings d' @ [(term_id, doc_id, tf)]\<rparr>) t d f"
proof -
  obtain i db' where g: "get_or_create_term_id db term = (i, db')"
    by (cases "get_or_create_term_id db term")
  from assms obtain j where j: "term_id_of db t = Some j" "(j, d, f) \<in> set (postings db)"
    by (auto simp: has_posting_def)
  from get_or_create_keeps[OF g j(1)] get_or_create_resolves(2)[OF g] j(2) show ?thesis
    by (auto simp: g has_posting_def)
qed

lemma insert_postings_keeps:
  "has_posting db t d f \<Longrightarrow> has_posting (insert_postings db doc_id term_freqs) t d f"
proof (induction term_freqs arbitrary: db)
  case Nil
  then show ?case by simp
next
  case (Cons p rest)
  obtain trm tf where p: "p = (trm, tf)" by (cases p)
  show ?case
    unfolding p insert_postings_Cons
    by (rule Cons.IH) (rule add_posting_keeps[OF Cons.prems])
qed

lemma insert_postings_new:
  "(term, tf) \<in> set term_freqs \<Longrightarrow>
   has_posting (insert_postings db doc_id term_freqs) term doc_id tf"
proof (induction term_freqs arbitrary: db)
  case Nil
  then show ?case by simp
next
  case (Cons p rest)
  obtain trm tf' where p: "p = (trm, tf')" by (cases p)
  show ?case
  proof (cases "(term, tf) = p")
    case True
    then have eq: "trm = term" "tf' = tf" using p by simp_all
    show ?thesis
      unfolding p eq insert_postings_Cons
      by (intro insert_postings_keeps add_posting_new)
  next
    case False
    with Cons.prems have "(term, tf) \<in> set rest" by simp
    then show ?thesis
      unfolding p insert_postings_Cons by (rule Cons.IH)
  qed
qed

lemma has_posting_fetched:
  "has_posting db term doc_id tf \<Longrightarrow> (doc_id, tf) \<in> set (get_term_postings db term)"
  by (force simp: has_posting_def term_id_of_def get_term_postings_def
      split: option.splits prod.splits)

lemma Counter_fold:
  "map_of (fold (\<lambda>t c. AList.update t ((case map_of c t of None \<Rightarrow> 0 | Some n \<Rightarrow> n) + 1) c) ts c0) t
     = (if t \<in> set ts
        then Some ((case map_of c0 t of None \<Rightarrow> 0 | Some n \<Rightarrow> n) + int (count_list ts t))
        else map_of c0 t)"
  by (induction ts arbitrary: c0) (auto simp: update_conv' count_list_0_iff)

lemma Counter_counts:
  "t \<in> set tokens \<Longrightarrow> (t, int (count_list tokens t)) \<in> set (Counter tokens)"
proof -
  assume "t \<in> set tokens"
  then have "map_of (Counter tokens) t = Some (int (count_list tokens t))"
    by (simp add: Counter_def Counter_fold)
  then show ?thesis by (rule map_of_SomeD)
qed

lemma index_documents_Cons:
  "index_documents (row # docs) db =
     (case tokenize (snd (snd (snd row))) of
        Inl e \<Rightarrow> (db, Some e)
      | Inr tokens \<Rightarrow> index_documents docs (insert_postings db (fst row) (Counter tokens)))"
  by (cases row) (simp add: Let_def split: sum.splits)

lemma tokenize_cases:
  "tokenize None = Inl TypeError"
  "tokenize (Some s) = Inr (map str_lower (TOKEN_RE_findall s))"
  by (simp_all add: tokenize_def)

lemma index_documents_completes:
  "\<forall>row\<in>set docs. well_formed row \<Longrightarrow> snd (index_documents docs db) = None"
proof (induction docs arbitrary: db)
  case Nil
  show ?case by simp
next
  case (Cons row docs)
  then obtain s where "snd (snd (snd row)) = Some s" by (auto simp: well_formed_def)
  with Cons show ?case by (simp add: index_documents_Cons tokenize_cases)
qed

lemma index_documents_keeps:
  "has_posting db t d f \<Longrightarrow> has_posting (fst (index_documents docs db)) t d f"
proof (induction docs arbitrary: db)
  case Nil
  then show ?case by simp
next
  case (Cons row docs)
  show ?case
  proof (cases "tokenize (snd (snd (snd row)))")
    case (Inl e)
    with Cons.prems show ?thesis by (simp add: index_documents_Cons)
  next
    case (Inr tokens)
    from Cons.IH[OF insert_postings_keeps[OF Cons.prems]] show ?thesis
      by (simp add: index_documents_Cons Inr)
  qed
qed

lemma index_documents_indexes:
  assumes "\<forall>row\<in>set docs. well_formed row" "row \<in> set docs"
    and "tokenize (snd (snd (snd row))) = Inr tokens" "t \<in> set tokens"
  shows "has_posting (fst (index_documents docs db)) t (fst row) (int (count_list tokens t))"
  using assms(1,2)
proof (induction docs arbitrary: db)
  case Nil
  then show ?case by simp
next
  case (Cons r docs)
  from Cons.prems(1) obtain s where s: "snd (snd (snd r)) = Some s" by (auto simp: well_formed_def)
  show ?case
  proof (cases "row = r")
    case True
    with assms(3) s have tok: "tokenize (Some s) = Inr tokens" by simp
    have "has_posting (insert_postings db (fst r) (Counter tokens)) t (fst r) (int (count_list tokens t))"
      by (rule insert_postings_new) (rule Counter_counts[OF assms(4)])
    from index_documents_keeps[OF this] show ?thesis
      by (simp add: index_documents_Cons s tok True)
  next
    case False
    with Cons.prems have "row \<in> set docs" "\<forall>row\<in>set docs. well_formed row" by simp_all
    from Cons.IH[OF this(2,1)] show ?thesis
      by (simp add: index_documents_Cons s tokenize_cases)
  qed
qed

lemma index_documents_aborts:
  assumes "\<forall>row\<in>set pre. well_formed row"
  shows "index_documents (pre @ (doc_id, u, ti, None) # post) db
           = (fst (index_documents pre db), Some TypeError)"
  using assms
proof (induction pre arbitrary: db)
  case Nil
  show ?case by (simp add: tokenize_cases)
next
  case (Cons r pre)
  then obtain s where s: "snd (snd (snd r)) = Some s" by (auto simp: well_formed_def)
  with Cons show ?case by (simp add: index_documents_Cons tokenize_cases)
qed

text \<open>
  Claim C9, as amended. When every corpus record has content, the build completes and the
  index holds, for every document and every token of it, a posting with the token's count.
  A record without content makes \<^verbatim>\<open>tokenize\<close> raise \<^verbatim>\<open>TypeError\<close>, which ends the build at that
  record: the result is the index of the records before it, whose postings are all there.
\<close>

theorem build_inverted_index_records:
  "((\<forall>row\<in>set (documents db). well_formed row) \<longrightarrow>
      snd (build_inverted_index db) = None
      \<and> (\<forall>row\<in>set (documents db). \<forall>tokens. tokenize (snd (snd (snd row))) = Inr tokens \<longrightarrow>
            (\<forall>t\<in>set tokens. (fst row, int (count_list tokens t))
                 \<in> set (get_term_postings (fst (build_inverted_index db)) t))))
   \<and> (documents db = pre @ (doc_id, u, ti, None) # post \<and> (\<forall>row\<in>set pre. well_formed row) \<longrightarrow>
      build_inverted_index db = (fst (index_documents pre (clear_index db)), Some TypeError)
      \<and> (\<forall>row\<in>set pre. \<forall>tokens. tokenize (snd (snd (snd row))) = Inr tokens \<longrightarrow>
            (\<forall>t\<in>set tokens. (fst row, int (count_list tokens t))
                 \<in> set (get_term_postings (fst (build_inverted_index db)) t))))"
proof (intro conjI impI)
  assume wf: "\<forall>row\<in>set (documents db). well_formed row"
  have docs: "documents (clear_index db) = documents db" by (simp add: clear_index_def)
  show "snd (build_inverted_index db) = None"
    using index_documents_completes[of "documents db" "clear_index db"] wf
    by (simp add: build_inverted_index_def Let_def get_all_documents_def docs)
  show "\<forall>row\<in>set (documents db). \<forall>tokens. tokenize (snd (snd (snd row))) = Inr tokens \<longrightarrow>
            (\<forall>t\<in>set tokens. (fst row, int (count_list tokens t))
                 \<in> set (get_term_postings (fst (build_inverted_index db)) t))"
  proof (intro ballI allI impI)
    fix row tokens t
    assume "row \<in> set (documents db)" "tokenize (snd (snd (snd row))) = Inr tokens" "t \<in> set tokens"
    from index_documents_indexes[OF wf this, of "clear_index db"]
    show "(fst row, int (count_list tokens t)) \<in> set (get_term_postings (fst (build_inverted_index db)) t)"
      by (simp add: build_inverted_index_def Let_def get_all_documents_def docs has_posting_fetched)
  qed
next
  assume a: "documents db = pre @ (doc_id, u, ti, None) # post \<and> (\<forall>row\<in>set pre. well_formed row)"
  then have d: "documents db = pre @ (doc_id, u, ti, None) # post"
    and wf: "\<forall>row\<in>set pre. well_formed row" by simp_all
  have docs: "documents (clear_index db) = documents db" by (simp add: clear_index_def)
  show b: "build_inverted_index db = (fst (index_documents pre (clear_index db)), Some TypeError)"
    using index_documents_aborts[OF wf, of doc_id u ti post "clear_index db"]
    by (simp add: build_inverted_index_def Let_def get_all_documents_def docs d)
  show "\<forall>row\<in>set pre. \<forall>tokens. tokenize (snd (snd (snd row))) = Inr tokens \<longrightarrow>
            (\<forall>t\<in>set tokens. (fst row, int (count_list tokens t))
                 \<in> set (get_term_postings (fst (build_inverted_index db)) t))"
  proof (intro ballI allI impI)
    fix row tokens t
    assume "row \<in> set pre" "tokenize (snd (snd (snd row))) = Inr tokens" "t \<in> set tokens"
    from index_documents_indexes[OF wf this, of "clear_index db"]
    show "(fst row, int (count_list tokens t)) \<in> set (get_term_postings (fst (build_inverted_index db)) t)"
      by (simp add: b has_posting_fetched)
  qed
qed

theorem build_inverted_index_records_witness:
  "snd (build_inverted_index example_corpus_db) = None
   \<and> (1, 2) \<in> set (get_term_postings (fst (build_inverted_index example_corpus_db)) [97])
   \<and> (2, 1) \<in> set (get_term_postings (fst (build_inverted_index example_corpus_db)) [98])
   \<and> build_inverted_index example_broken_db
       = (fst (index_documents [(1, [], None, Some [97])] (clear_index example_broken_db)),
          Some TypeError)
   \<and> (1, 1) \<in> set (get_term_postings (fst (build_inverted_index example_broken_db)) [97])"
proof -
  have tok1: "tokenize (Some [97, 32, 98, 32, 65]) = Inr [[97], [98], [97]]"
    and tok2: "tokenize (Some [98]) = Inr [[98]]"
    and tok3: "tokenize (Some [97]) = Inr [[97]]"
    by (simp_all add: tokenize_def TOKEN_RE_findall_def in_token_class_def str_lower_def char_lower_def)
  have wfc: "\<forall>row\<in>set (documents example_corpus_db). well_formed row"
    by (simp add: example_corpus_db_def well_formed_def)
  have m1: "(1, [], None, Some [97, 32, 98, 32, 65]) \<in> set (documents example_corpus_db)"
    and m2: "(2, [], None, Some [98]) \<in> set (documents example_corpus_db)"
    by (simp_all add: example_corpus_db_def)
  from build_inverted_index_records[of example_corpus_db "[]" 0 "[]" None "[]"] wfc
  have ok: "snd (build_inverted_index example_corpus_db) = None"
    and all: "\<forall>row\<in>set (documents example_corpus_db). \<forall>tokens.
        tokenize (snd (snd (snd row))) = Inr tokens \<longrightarrow>
          (\<forall>t\<in>set tokens. (fst row, int (count_list tokens t))
               \<in> set (get_term_postings (fst (build_inverted_index example_corpus_db)) t))"
    by blast+
  from all m1 tok1 have p1: "(1, 2) \<in> set (get_term_postings (fst (build_inverted_index example_corpus_db)) [97])"
    by fastforce
  from all m2 tok2 have p2: "(2, 1) \<in> set (get_term_postings (fst (build_inverted_index example_corpus_db)) [98])"
    by fastforce
  have d: "documents example_broken_db
      = [(1, [], None, Some [97])] @ (2, [], None, None) # [(3, [], None, Some [98])]"
    by (simp add: example_broken_db_def)
  have wfb: "\<forall>row\<in>set [(1::int, []::ustr, None::ustr option, Some [97::nat])]. well_formed row"
    by (simp add: well_formed_def)
  from build_inverted_index_records[of example_broken_db "[(1, [], None, Some [97])]" 2 "[]" None
      "[(3, [], None, Some [98])]"] d wfb
  have ab: "build_inverted_index example_broken_db
       = (fst (index_documents [(1, [], None, Some [97])] (clear_index example_broken_db)),
          Some TypeError)"
    and pre: "\<forall>row\<in>set [(1::int, []::ustr, None::ustr option, Some [97::nat])]. \<forall>tokens.
        tokenize (snd (snd (snd row))) = Inr tokens \<longrightarrow>
          (\<forall>t\<in>set tokens. (fst row, int (count_list tokens t))
               \<in> set (get_term_postings (fst (build_inverted_index example_broken_db)) t))"
    by blast+
  from pre tok3 have p3: "(1, 1) \<in> set (get_term_postings (fst (build_inverted_index example_broken_db)) [97])"
    by fastforce
  from ok p1 p2 ab p3 show ?thesis by blast
qed

text \<open>
  Claim C9 as first stated fails: the record without content is not skipped, and the
  well-formed document after it gets no postings.
\<close>

theorem build_inverted_index_aborts_on_missing_content:
  "snd (build_inverted_index example_broken_db) = Some TypeError
   \<and> tokenize (Some [98]) = Inr [[98]]
   \<and> get_term_postings (fst (build_inverted_index example_broken_db)) [98] = []"
  by (simp add: build_inverted_index_def example_broken_db_def clear_index_def get_all_documents_def
      tokenize_def TOKEN_RE_findall_def in_token_class_def str_lower_def char_lower_def
      Counter_def insert_postings_def get_or_create_term_id_def get_term_postings_def Let_def)


end
